theory Spec2Isabelle
  imports Main "HOL-Library.Word"
begin

section \<open>Outcomes of a call\<close>

text \<open>
  The repository holds one class template, \<^verbatim>\<open>segment_tree<T>\<close>, in two files:
  \<^verbatim>\<open>src/segtree.cpp\<close> and \<^verbatim>\<open>src/unnamed/part_000\<close>. Both are embedded below, function
  by function.

  A call of the C++ code can end in three ways, and the model keeps them apart:
  \<^item> \<open>Some (Inr x)\<close>: the call returns \<open>x\<close>;
  \<^item> \<open>Some (Inl e)\<close>: the call leaves defined behaviour or throws: an unchecked
    \<^verbatim>\<open>operator[]\<close> outside the vector (\<open>Out_of_range\<close>), an overflow of the \<^verbatim>\<open>int\<close>
    node index (\<open>Signed_overflow\<close>), or \<^verbatim>\<open>std::length_error\<close> from
    \<^verbatim>\<open>vector::assign\<close> (\<open>Length_error\<close>);
  \<^item> \<open>None\<close>: the recursion is deeper than the call depth \<open>d\<close> that the model is
    given. The three private member functions are recursive; their first argument
    \<open>d\<close> in the model bounds the depth of the recursion, so a recursion without end
    is \<open>None\<close> for every \<open>d\<close>.
  Exhaustion of memory (\<^verbatim>\<open>std::bad_alloc\<close>) is not modelled. The combiner
  \<^verbatim>\<open>std::function<T(T, T)>\<close> is a total function without effects.
\<close>

datatype error = Out_of_range | Signed_overflow | Length_error

type_synonym 'a outcome = "(error + 'a) option"

text \<open>\<^verbatim>\<open>int\<close> is 32 bits wide; addition on it is taken modulo \<open>2 ^ 32\<close>.\<close>

type_synonym cint = "32 word"

definition INT_MAX :: nat where
  "INT_MAX = 2147483647"

definition INT_MIN :: int where
  "INT_MIN = - 2147483648"

text \<open>
  \<^verbatim>\<open>std::vector<int>::max_size()\<close> where \<^verbatim>\<open>size_t\<close> has 64 bits and \<^verbatim>\<open>int\<close> has 4
  bytes. The standard library fixes the value, not the repository; it only decides
  which requests \<^verbatim>\<open>assign\<close> refuses. The requests of this class are either below
  \<open>2 ^ 33\<close> or, after the conversion of a negative \<^verbatim>\<open>int\<close>, at least \<open>2 ^ 64 - 2 ^ 33\<close>,
  so the outcome is the same for the vectors of every element type.
\<close>

definition max_size :: nat where
  "max_size = 2 ^ 61 - 1"

definition bind :: "'a outcome \<Rightarrow> ('a \<Rightarrow> 'b outcome) \<Rightarrow> 'b outcome" where
  "bind m k =
     (case m of None \<Rightarrow> None | Some (Inl e) \<Rightarrow> Some (Inl e) | Some (Inr x) \<Rightarrow> k x)"

text \<open>\<^verbatim>\<open>xs[i]\<close> read and written: \<^verbatim>\<open>operator[]\<close> does not check its index.\<close>

definition vec_get :: "'a list \<Rightarrow> nat \<Rightarrow> 'a outcome" where
  "vec_get xs i = (if i < length xs then Some (Inr (xs ! i)) else Some (Inl Out_of_range))"

definition vec_set :: "'a list \<Rightarrow> nat \<Rightarrow> 'a \<Rightarrow> 'a list outcome" where
  "vec_set xs i x =
     (if i < length xs then Some (Inr (xs[i := x])) else Some (Inl Out_of_range))"

text \<open>\<^verbatim>\<open>xs.assign(count, x)\<close>.\<close>

definition vec_assign :: "nat \<Rightarrow> 'a \<Rightarrow> 'a list outcome" where
  "vec_assign count x =
     (if count > max_size then Some (Inl Length_error) else Some (Inr (replicate count x)))"

text \<open>
  \<^verbatim>\<open>2 * v\<close> and \<^verbatim>\<open>2 * v + 1\<close> on the \<^verbatim>\<open>int v\<close> of the private functions. The public
  functions start at \<open>v = 1\<close> and the index only doubles, so it is never negative
  and is a \<open>nat\<close> here; its overflow is checked.
\<close>

definition twice :: "nat \<Rightarrow> nat outcome" where
  "twice v = (if 2 * v \<le> INT_MAX then Some (Inr (2 * v)) else Some (Inl Signed_overflow))"

definition twice_plus1 :: "nat \<Rightarrow> nat outcome" where
  "twice_plus1 v =
     (if 2 * v + 1 \<le> INT_MAX then Some (Inr (2 * v + 1)) else Some (Inl Signed_overflow))"

section \<open>The class of src/segtree.cpp\<close>

text \<open>
  The members \<^verbatim>\<open>n\<close>, \<^verbatim>\<open>tree\<close> and \<^verbatim>\<open>foo\<close>. The indices \<^verbatim>\<open>size_t l, r\<close> and the
  arguments \<^verbatim>\<open>size_t point, left, right\<close> are natural numbers: \<open>(l + r) / 2\<close> stays
  below the size of a vector and does not wrap.
\<close>

record 'a segment_tree =
  n :: nat
  tree :: "'a list"
  foo :: "'a \<Rightarrow> 'a \<Rightarrow> 'a"

text \<open>
  \<^verbatim>\<open>build\<close> takes a \<^verbatim>\<open>const std::vector<int>&\<close> in this file, and the constructors
  pass it their \<^verbatim>\<open>const std::vector<T>&\<close>: a tree is built from a sequence only where
  \<open>T\<close> is \<^verbatim>\<open>int\<close>. The private functions take the members they use (\<open>f\<close> for
  \<^verbatim>\<open>foo\<close>, \<open>t\<close> for \<^verbatim>\<open>tree\<close>) and return the new \<^verbatim>\<open>tree\<close>. In \<^verbatim>\<open>build\<close> the indices
  \<open>lc\<close> and \<open>rc\<close> of the two recursive calls are used again where the source
  writes \<^verbatim>\<open>tree[2 * v]\<close> and \<^verbatim>\<open>tree[2 * v + 1]\<close>: the same products of the same \<open>v\<close>.
\<close>

fun build ::
  "nat \<Rightarrow> (cint \<Rightarrow> cint \<Rightarrow> cint) \<Rightarrow> cint list \<Rightarrow> nat \<Rightarrow> nat \<Rightarrow> nat \<Rightarrow> cint list
    \<Rightarrow> cint list outcome" where
  "build 0 f vec v l r t = None"
| "build (Suc d) f vec v l r t =
    (if l = r then
       bind (vec_get vec l) (\<lambda>x. vec_set t v x)
     else
       let mid = (l + r) div 2 in
       bind (twice v) (\<lambda>lc.
       bind (build d f vec lc l mid t) (\<lambda>t1.
       bind (twice_plus1 v) (\<lambda>rc.
       bind (build d f vec rc (mid + 1) r t1) (\<lambda>t2.
       bind (vec_get t2 lc) (\<lambda>a.
       bind (vec_get t2 rc) (\<lambda>b.
       vec_set t2 v (f a b))))))))"

fun update ::
  "nat \<Rightarrow> ('a \<Rightarrow> 'a \<Rightarrow> 'a) \<Rightarrow> nat \<Rightarrow> 'a \<Rightarrow> nat \<Rightarrow> nat \<Rightarrow> nat \<Rightarrow> 'a list \<Rightarrow> 'a list outcome" where
  "update 0 f idx val v l r t = None"
| "update (Suc d) f idx val v l r t =
    (if l = r then
       vec_set t v val
     else
       let mid = (l + r) div 2 in
       bind (if idx \<le> mid
             then bind (twice v) (\<lambda>lc. update d f idx val lc l mid t)
             else bind (twice_plus1 v) (\<lambda>rc. update d f idx val rc (mid + 1) r t)) (\<lambda>t1.
       bind (twice v) (\<lambda>lc.
       bind (vec_get t1 lc) (\<lambda>a.
       bind (twice_plus1 v) (\<lambda>rc.
       bind (vec_get t1 rc) (\<lambda>b.
       vec_set t1 v (f a b)))))))"

text \<open>
  The private \<^verbatim>\<open>get\<close> is not a \<^verbatim>\<open>const\<close> member: the model returns the \<^verbatim>\<open>tree\<close> it
  leaves behind together with the value. C++ does not fix the order of the two
  recursive calls that are the arguments of \<^verbatim>\<open>foo\<close>; the model calls the left one
  first.
\<close>

fun get ::
  "nat \<Rightarrow> ('a \<Rightarrow> 'a \<Rightarrow> 'a) \<Rightarrow> nat \<Rightarrow> nat \<Rightarrow> nat \<Rightarrow> nat \<Rightarrow> nat \<Rightarrow> 'a list
    \<Rightarrow> ('a \<times> 'a list) outcome" where
  "get 0 f left right v l r t = None"
| "get (Suc d) f left right v l r t =
    (if left \<le> l \<and> r \<le> right then
       bind (vec_get t v) (\<lambda>x. Some (Inr (x, t)))
     else
       let mid = (l + r) div 2 in
       if right \<le> mid then
         bind (twice v) (\<lambda>lc. get d f left right lc l mid t)
       else if left > mid then
         bind (twice_plus1 v) (\<lambda>rc. get d f left right rc (mid + 1) r t)
       else
         bind (twice v) (\<lambda>lc.
         bind (get d f left right lc l mid t) (\<lambda>(a, t1).
         bind (twice_plus1 v) (\<lambda>rc.
         bind (get d f left right rc (mid + 1) r t1) (\<lambda>(b, t2).
         Some (Inr (f a b, t2)))))))"

text \<open>
  The constructors \<^verbatim>\<open>segment_tree(int n, foo)\<close> and \<^verbatim>\<open>segment_tree(int n)\<close>. The
  parameter \<^verbatim>\<open>int n\<close> hides the member: \<^verbatim>\<open>4 * n\<close> is a product of \<^verbatim>\<open>int\<close>, and the
  member becomes the parameter converted to \<^verbatim>\<open>size_t\<close>. A negative product converts
  to a count of at least \<open>2 ^ 64 - 2 ^ 33\<close>, which \<^verbatim>\<open>assign\<close> refuses.
\<close>

definition segment_tree_n_foo ::
  "cint \<Rightarrow> ('a \<Rightarrow> 'a \<Rightarrow> 'a) \<Rightarrow> ('a::zero) segment_tree outcome" where
  "segment_tree_n_foo n0 f =
     (let k = sint n0 in
      if 4 * k < INT_MIN \<or> int INT_MAX < 4 * k then Some (Inl Signed_overflow)
      else
        bind (vec_assign (nat ((4 * k) mod 2 ^ 64)) 0) (\<lambda>t.
        Some (Inr \<lparr>n = nat (k mod 2 ^ 64), tree = t, foo = f\<rparr>)))"

definition segment_tree_n :: "cint \<Rightarrow> ('a::{zero,plus}) segment_tree outcome" where
  "segment_tree_n n0 =
     (let k = sint n0 in
      if 4 * k < INT_MIN \<or> int INT_MAX < 4 * k then Some (Inl Signed_overflow)
      else
        bind (vec_assign (nat ((4 * k) mod 2 ^ 64)) 0) (\<lambda>t.
        Some (Inr \<lparr>n = nat (k mod 2 ^ 64), tree = t, foo = (\<lambda>a b. a + b)\<rparr>)))"

text \<open>
  The constructors \<^verbatim>\<open>segment_tree(vec, foo)\<close> and \<^verbatim>\<open>segment_tree(vec)\<close>. Here \<^verbatim>\<open>n\<close> is
  the member, and \<^verbatim>\<open>4 * n\<close> a product of \<^verbatim>\<open>size_t\<close>.
\<close>

definition segment_tree_vec_foo ::
  "nat \<Rightarrow> cint list \<Rightarrow> (cint \<Rightarrow> cint \<Rightarrow> cint) \<Rightarrow> cint segment_tree outcome" where
  "segment_tree_vec_foo d vec f =
     (let m = length vec in
      bind (vec_assign ((4 * m) mod 2 ^ 64) 0) (\<lambda>t.
      if m \<noteq> 0 then
        bind (build d f vec 1 0 (m - 1) t) (\<lambda>t'. Some (Inr \<lparr>n = m, tree = t', foo = f\<rparr>))
      else Some (Inr \<lparr>n = m, tree = t, foo = f\<rparr>)))"

definition segment_tree_vec :: "nat \<Rightarrow> cint list \<Rightarrow> cint segment_tree outcome" where
  "segment_tree_vec d vec =
     (let m = length vec in
      bind (vec_assign ((4 * m) mod 2 ^ 64) 0) (\<lambda>t.
      if m \<noteq> 0 then
        bind (build d (\<lambda>a b. a + b) vec 1 0 (m - 1) t)
          (\<lambda>t'. Some (Inr \<lparr>n = m, tree = t', foo = (\<lambda>a b. a + b)\<rparr>))
      else Some (Inr \<lparr>n = m, tree = t, foo = (\<lambda>a b. a + b)\<rparr>)))"

definition update_point ::
  "nat \<Rightarrow> 'a segment_tree \<Rightarrow> nat \<Rightarrow> 'a \<Rightarrow> 'a segment_tree outcome" where
  "update_point d st point new_val =
     (if point < n st then
        bind (update d (foo st) point new_val 1 0 (n st - 1) (tree st))
          (\<lambda>t'. Some (Inr (st\<lparr>tree := t'\<rparr>)))
      else Some (Inr st))"

text \<open>The public \<^verbatim>\<open>get(left, right)\<close>, the query of the specification.\<close>

definition get_public ::
  "nat \<Rightarrow> ('a::zero) segment_tree \<Rightarrow> nat \<Rightarrow> nat \<Rightarrow> ('a \<times> 'a segment_tree) outcome" where
  "get_public d st left right =
     (if left \<le> right \<and> right < n st then
        bind (get d (foo st) left right 1 0 (n st - 1) (tree st))
          (\<lambda>(x, t'). Some (Inr (x, st\<lparr>tree := t'\<rparr>)))
      else Some (Inr (0, st)))"

text \<open>
  A client of the class, as \<^verbatim>\<open>main\<close> is one: a sequence of calls on one tree. It
  returns the values the queries gave, in order.
\<close>

datatype 'a call = Update_point nat 'a | Get nat nat

fun run :: "nat \<Rightarrow> ('a::zero) segment_tree \<Rightarrow> 'a call list \<Rightarrow> 'a list outcome" where
  "run d st [] = Some (Inr [])"
| "run d st (Update_point point new_val # cs) =
     bind (update_point d st point new_val) (\<lambda>st'. run d st' cs)"
| "run d st (Get left right # cs) =
     bind (get_public d st left right) (\<lambda>(x, st').
     bind (run d st' cs) (\<lambda>xs. Some (Inr (x # xs))))"

section \<open>The class of src/unnamed/part_000\<close>

text \<open>
  The second file differs in \<^verbatim>\<open>build\<close>, which takes a \<^verbatim>\<open>const std::vector<T>&\<close>, and
  in a fifth, default constructor, which is not shared with the first file and not
  embedded.
\<close>

fun build_p000 ::
  "nat \<Rightarrow> ('a \<Rightarrow> 'a \<Rightarrow> 'a) \<Rightarrow> 'a list \<Rightarrow> nat \<Rightarrow> nat \<Rightarrow> nat \<Rightarrow> 'a list \<Rightarrow> 'a list outcome" where
  "build_p000 0 f vec v l r t = None"
| "build_p000 (Suc d) f vec v l r t =
    (if l = r then
       bind (vec_get vec l) (\<lambda>x. vec_set t v x)
     else
       let mid = (l + r) div 2 in
       bind (twice v) (\<lambda>lc.
       bind (build_p000 d f vec lc l mid t) (\<lambda>t1.
       bind (twice_plus1 v) (\<lambda>rc.
       bind (build_p000 d f vec rc (mid + 1) r t1) (\<lambda>t2.
       bind (vec_get t2 lc) (\<lambda>a.
       bind (vec_get t2 rc) (\<lambda>b.
       vec_set t2 v (f a b))))))))"

fun update_p000 ::
  "nat \<Rightarrow> ('a \<Rightarrow> 'a \<Rightarrow> 'a) \<Rightarrow> nat \<Rightarrow> 'a \<Rightarrow> nat \<Rightarrow> nat \<Rightarrow> nat \<Rightarrow> 'a list \<Rightarrow> 'a list outcome" where
  "update_p000 0 f idx val v l r t = None"
| "update_p000 (Suc d) f idx val v l r t =
    (if l = r then
       vec_set t v val
     else
       let mid = (l + r) div 2 in
       bind (if idx \<le> mid
             then bind (twice v) (\<lambda>lc. update_p000 d f idx val lc l mid t)
             else bind (twice_plus1 v) (\<lambda>rc. update_p000 d f idx val rc (mid + 1) r t)) (\<lambda>t1.
       bind (twice v) (\<lambda>lc.
       bind (vec_get t1 lc) (\<lambda>a.
       bind (twice_plus1 v) (\<lambda>rc.
       bind (vec_get t1 rc) (\<lambda>b.
       vec_set t1 v (f a b)))))))"

fun get_p000 ::
  "nat \<Rightarrow> ('a \<Rightarrow> 'a \<Rightarrow> 'a) \<Rightarrow> nat \<Rightarrow> nat \<Rightarrow> nat \<Rightarrow> nat \<Rightarrow> nat \<Rightarrow> 'a list
    \<Rightarrow> ('a \<times> 'a list) outcome" where
  "get_p000 0 f left right v l r t = None"
| "get_p000 (Suc d) f left right v l r t =
    (if left \<le> l \<and> r \<le> right then
       bind (vec_get t v) (\<lambda>x. Some (Inr (x, t)))
     else
       let mid = (l + r) div 2 in
       if right \<le> mid then
         bind (twice v) (\<lambda>lc. get_p000 d f left right lc l mid t)
       else if left > mid then
         bind (twice_plus1 v) (\<lambda>rc. get_p000 d f left right rc (mid + 1) r t)
       else
         bind (twice v) (\<lambda>lc.
         bind (get_p000 d f left right lc l mid t) (\<lambda>(a, t1).
         bind (twice_plus1 v) (\<lambda>rc.
         bind (get_p000 d f left right rc (mid + 1) r t1) (\<lambda>(b, t2).
         Some (Inr (f a b, t2)))))))"

definition segment_tree_n_foo_p000 ::
  "cint \<Rightarrow> ('a \<Rightarrow> 'a \<Rightarrow> 'a) \<Rightarrow> ('a::zero) segment_tree outcome" where
  "segment_tree_n_foo_p000 n0 f =
     (let k = sint n0 in
      if 4 * k < INT_MIN \<or> int INT_MAX < 4 * k then Some (Inl Signed_overflow)
      else
        bind (vec_assign (nat ((4 * k) mod 2 ^ 64)) 0) (\<lambda>t.
        Some (Inr \<lparr>n = nat (k mod 2 ^ 64), tree = t, foo = f\<rparr>)))"

definition segment_tree_n_p000 :: "cint \<Rightarrow> ('a::{zero,plus}) segment_tree outcome" where
  "segment_tree_n_p000 n0 =
     (let k = sint n0 in
      if 4 * k < INT_MIN \<or> int INT_MAX < 4 * k then Some (Inl Signed_overflow)
      else
        bind (vec_assign (nat ((4 * k) mod 2 ^ 64)) 0) (\<lambda>t.
        Some (Inr \<lparr>n = nat (k mod 2 ^ 64), tree = t, foo = (\<lambda>a b. a + b)\<rparr>)))"

definition segment_tree_vec_foo_p000 ::
  "nat \<Rightarrow> 'a list \<Rightarrow> ('a \<Rightarrow> 'a \<Rightarrow> 'a) \<Rightarrow> ('a::zero) segment_tree outcome" where
  "segment_tree_vec_foo_p000 d vec f =
     (let m = length vec in
      bind (vec_assign ((4 * m) mod 2 ^ 64) 0) (\<lambda>t.
      if m \<noteq> 0 then
        bind (build_p000 d f vec 1 0 (m - 1) t)
          (\<lambda>t'. Some (Inr \<lparr>n = m, tree = t', foo = f\<rparr>))
      else Some (Inr \<lparr>n = m, tree = t, foo = f\<rparr>)))"

definition segment_tree_vec_p000 ::
  "nat \<Rightarrow> 'a list \<Rightarrow> ('a::{zero,plus}) segment_tree outcome" where
  "segment_tree_vec_p000 d vec =
     (let m = length vec in
      bind (vec_assign ((4 * m) mod 2 ^ 64) 0) (\<lambda>t.
      if m \<noteq> 0 then
        bind (build_p000 d (\<lambda>a b. a + b) vec 1 0 (m - 1) t)
          (\<lambda>t'. Some (Inr \<lparr>n = m, tree = t', foo = (\<lambda>a b. a + b)\<rparr>))
      else Some (Inr \<lparr>n = m, tree = t, foo = (\<lambda>a b. a + b)\<rparr>)))"

definition update_point_p000 ::
  "nat \<Rightarrow> 'a segment_tree \<Rightarrow> nat \<Rightarrow> 'a \<Rightarrow> 'a segment_tree outcome" where
  "update_point_p000 d st point new_val =
     (if point < n st then
        bind (update_p000 d (foo st) point new_val 1 0 (n st - 1) (tree st))
          (\<lambda>t'. Some (Inr (st\<lparr>tree := t'\<rparr>)))
      else Some (Inr st))"

definition get_public_p000 ::
  "nat \<Rightarrow> ('a::zero) segment_tree \<Rightarrow> nat \<Rightarrow> nat \<Rightarrow> ('a \<times> 'a segment_tree) outcome" where
  "get_public_p000 d st left right =
     (if left \<le> right \<and> right < n st then
        bind (get_p000 d (foo st) left right 1 0 (n st - 1) (tree st))
          (\<lambda>(x, t'). Some (Inr (x, st\<lparr>tree := t'\<rparr>)))
      else Some (Inr (0, st)))"

fun run_p000 :: "nat \<Rightarrow> ('a::zero) segment_tree \<Rightarrow> 'a call list \<Rightarrow> 'a list outcome" where
  "run_p000 d st [] = Some (Inr [])"
| "run_p000 d st (Update_point point new_val # cs) =
     bind (update_point_p000 d st point new_val) (\<lambda>st'. run_p000 d st' cs)"
| "run_p000 d st (Get left right # cs) =
     bind (get_public_p000 d st left right) (\<lambda>(x, st').
     bind (run_p000 d st' cs) (\<lambda>xs. Some (Inr (x # xs))))"

section \<open>The notions of the specification\<close>

text \<open>The fold of the values at the positions \<open>l..r\<close> under \<open>f\<close>, in range order.\<close>

definition agg :: "('a \<Rightarrow> 'a \<Rightarrow> 'a) \<Rightarrow> 'a list \<Rightarrow> nat \<Rightarrow> nat \<Rightarrow> 'a" where
  "agg f xs l r = foldl f (xs ! l) (map (\<lambda>i. xs ! i) [Suc l..<Suc r])"

definition associative :: "('a \<Rightarrow> 'a \<Rightarrow> 'a) \<Rightarrow> bool" where
  "associative f = (\<forall>a b c. f (f a b) c = f a (f b c))"

definition neutral :: "('a \<Rightarrow> 'a \<Rightarrow> 'a) \<Rightarrow> 'a \<Rightarrow> bool" where
  "neutral f e = (\<forall>x. f e x = x \<and> f x e = x)"

text \<open>
  The nodes of a tree over \<open>m\<close> elements: slot \<open>1\<close> covers \<open>[0, m - 1]\<close>, and below a
  node \<open>v\<close> that covers \<open>[l, r]\<close> with \<open>l < r\<close>, slot \<open>2 * v\<close> covers \<open>[l, mid]\<close> and slot
  \<open>2 * v + 1\<close> covers \<open>[mid + 1, r]\<close>, where \<open>mid = (l + r) div 2\<close>.
\<close>

inductive_set nodes :: "nat \<Rightarrow> (nat \<times> nat \<times> nat) set" for m :: nat where
  root: "0 < m \<Longrightarrow> (1, 0, m - 1) \<in> nodes m"
| left: "(v, l, r) \<in> nodes m \<Longrightarrow> l < r \<Longrightarrow> (2 * v, l, (l + r) div 2) \<in> nodes m"
| right: "(v, l, r) \<in> nodes m \<Longrightarrow> l < r \<Longrightarrow> (2 * v + 1, (l + r) div 2 + 1, r) \<in> nodes m"

text \<open>
  \<open>built f xs st\<close>: the tree \<open>st\<close> was built from a sequence with the combiner \<open>f\<close>
  and then changed by calls of \<^verbatim>\<open>update_point\<close>; \<open>xs\<close> are its logical values now.
\<close>

inductive built :: "(cint \<Rightarrow> cint \<Rightarrow> cint) \<Rightarrow> cint list \<Rightarrow> cint segment_tree \<Rightarrow> bool" where
  from_vec_foo: "segment_tree_vec_foo d vec f = Some (Inr st) \<Longrightarrow> built f vec st"
| from_vec: "segment_tree_vec d vec = Some (Inr st) \<Longrightarrow> built (\<lambda>a b. a + b) vec st"
| updated: "built f xs st \<Longrightarrow> update_point d st point new_val = Some (Inr st')
     \<Longrightarrow> built f (xs[point := new_val]) st'"

text \<open>The trees that the public interface can produce, for the element type \<^verbatim>\<open>int\<close>.\<close>

inductive reachable :: "cint segment_tree \<Rightarrow> bool" where
  by_n_foo: "segment_tree_n_foo n0 f = Some (Inr st) \<Longrightarrow> reachable st"
| by_n: "segment_tree_n n0 = Some (Inr st) \<Longrightarrow> reachable st"
| by_vec_foo: "segment_tree_vec_foo d vec f = Some (Inr st) \<Longrightarrow> reachable st"
| by_vec: "segment_tree_vec d vec = Some (Inr st) \<Longrightarrow> reachable st"
| by_update_point: "reachable st \<Longrightarrow> update_point d st point new_val = Some (Inr st')
     \<Longrightarrow> reachable st'"
| by_get: "reachable st \<Longrightarrow> get_public d st left right = Some (Inr (x, st'))
     \<Longrightarrow> reachable st'"

text \<open>The value of a query alone, without the tree it leaves behind.\<close>

definition value_of :: "('a \<times> 's) outcome \<Rightarrow> 'a outcome" where
  "value_of m = bind m (\<lambda>(x, s). Some (Inr x))"

section \<open>Notions of the proofs\<close>

text \<open>The slots in the subtree of slot \<open>v\<close>: level \<open>k\<close> below \<open>v\<close> holds \<open>v * 2 ^ k\<close> and the
  \<open>2 ^ k - 1\<close> slots after it.\<close>

definition slots :: "nat \<Rightarrow> nat set" where
  "slots v = {u. \<exists>k. v * 2 ^ k \<le> u \<and> u < (v + 1) * 2 ^ k}"

text \<open>\<open>shape len v l r\<close>: every slot of the subtree of \<open>v\<close> over \<open>[l, r]\<close> lies inside a
  vector of length \<open>len\<close>, and no index computation in it overflows.\<close>

inductive shape :: "nat \<Rightarrow> nat \<Rightarrow> nat \<Rightarrow> nat \<Rightarrow> bool" for len :: nat where
  shape_leaf: "1 \<le> v \<Longrightarrow> v < len \<Longrightarrow> shape len v l l"
| shape_node: "1 \<le> v \<Longrightarrow> l < r \<Longrightarrow> 2 * v + 1 \<le> INT_MAX \<Longrightarrow> 2 * v + 1 < len
     \<Longrightarrow> shape len (2 * v) l ((l + r) div 2)
     \<Longrightarrow> shape len (2 * v + 1) ((l + r) div 2 + 1) r
     \<Longrightarrow> shape len v l r"

text \<open>\<open>good f xs t v l r\<close>: in the subtree of \<open>v\<close> over \<open>[l, r]\<close>, every leaf holds its
  value of \<open>xs\<close> and every inner slot the combination of its two children.\<close>

inductive good :: "('a \<Rightarrow> 'a \<Rightarrow> 'a) \<Rightarrow> 'a list \<Rightarrow> 'a list \<Rightarrow> nat \<Rightarrow> nat \<Rightarrow> nat \<Rightarrow> bool"
  for f :: "'a \<Rightarrow> 'a \<Rightarrow> 'a" and xs :: "'a list" and t :: "'a list" where
  good_leaf: "t ! v = xs ! l \<Longrightarrow> good f xs t v l l"
| good_node: "l < r \<Longrightarrow> t ! v = f (t ! (2 * v)) (t ! (2 * v + 1))
     \<Longrightarrow> good f xs t (2 * v) l ((l + r) div 2)
     \<Longrightarrow> good f xs t (2 * v + 1) ((l + r) div 2 + 1) r
     \<Longrightarrow> good f xs t v l r"

definition get_val ::
  "nat \<Rightarrow> ('a \<Rightarrow> 'a \<Rightarrow> 'a) \<Rightarrow> nat \<Rightarrow> nat \<Rightarrow> nat \<Rightarrow> nat \<Rightarrow> nat \<Rightarrow> 'a list \<Rightarrow> 'a outcome" where
  "get_val d f left right v l r t = value_of (get d f left right v l r t)"

text \<open>The tree of \<^verbatim>\<open>main\<close> for the sum, before and after \<open>update_point(2, 7)\<close>.\<close>

definition usage_tree0 :: "cint segment_tree" where
  "usage_tree0 = \<lparr>n = 5,
     tree = [0, 58, 7, 51, 6, 1, 42, 9, 2, 4, 0, 0, 0, 0, 0, 0, 0, 0, 0, 0],
     foo = (\<lambda>a b. a + b)\<rparr>"

definition usage_tree :: "cint segment_tree" where
  "usage_tree = \<lparr>n = 5,
     tree = [0, 64, 13, 51, 6, 7, 42, 9, 2, 4, 0, 0, 0, 0, 0, 0, 0, 0, 0, 0],
     foo = (\<lambda>a b. a + b)\<rparr>"

section \<open>Outcomes and slots\<close>

lemma bind_None [simp]: "bind None k = None"
  by (simp add: bind_def)

lemma bind_Inl [simp]: "bind (Some (Inl e)) k = Some (Inl e)"
  by (simp add: bind_def)

lemma bind_Inr [simp]: "bind (Some (Inr x)) k = k x"
  by (simp add: bind_def)

lemma bind_eq_Inr:
  "bind m k = Some (Inr y) \<longleftrightarrow> (\<exists>x. m = Some (Inr x) \<and> k x = Some (Inr y))"
  by (auto simp: bind_def split: option.splits sum.splits)

lemma bind_assoc: "bind (bind m k) h = bind m (\<lambda>x. bind (k x) h)"
  by (auto simp: bind_def split: option.splits sum.splits)

lemma vec_get_Inr: "vec_get xs i = Some (Inr x) \<longleftrightarrow> i < length xs \<and> x = xs ! i"
  by (auto simp: vec_get_def)

lemma vec_set_Inr: "vec_set xs i x = Some (Inr ys) \<longleftrightarrow> i < length xs \<and> ys = xs[i := x]"
  by (auto simp: vec_set_def)

lemma twice_Inr: "twice v = Some (Inr c) \<longleftrightarrow> 2 * v \<le> INT_MAX \<and> c = 2 * v"
  by (auto simp: twice_def)

lemma twice_plus1_Inr: "twice_plus1 v = Some (Inr c) \<longleftrightarrow> 2 * v + 1 \<le> INT_MAX \<and> c = 2 * v + 1"
  by (auto simp: twice_plus1_def)

lemma slots_self: "v \<in> slots v"
  unfolding slots_def by (rule CollectI, rule exI [of _ 0]) simp

lemma slots_left: "u \<in> slots (2 * v) \<Longrightarrow> u \<in> slots v"
proof -
  assume "u \<in> slots (2 * v)"
  then obtain k where k: "2 * v * 2 ^ k \<le> u" "u < (2 * v + 1) * 2 ^ k"
    by (auto simp: slots_def)
  have "(2 * v + 1) * 2 ^ k \<le> (2 * v + 2) * (2::nat) ^ k"
    by (rule mult_le_mono1) simp
  with k have "v * 2 ^ Suc k \<le> u \<and> u < (v + 1) * 2 ^ Suc k"
    by (simp add: algebra_simps)
  then show ?thesis
    unfolding slots_def by blast
qed

lemma slots_right: "u \<in> slots (2 * v + 1) \<Longrightarrow> u \<in> slots v"
proof -
  assume "u \<in> slots (2 * v + 1)"
  then obtain k where k: "(2 * v + 1) * 2 ^ k \<le> u" "u < (2 * v + 1 + 1) * 2 ^ k"
    by (auto simp: slots_def)
  have "2 * v * 2 ^ k \<le> (2 * v + 1) * (2::nat) ^ k"
    by (rule mult_le_mono1) simp
  with k have "v * 2 ^ Suc k \<le> u \<and> u < (v + 1) * 2 ^ Suc k"
    by (simp add: algebra_simps)
  then show ?thesis
    unfolding slots_def by blast
qed

lemma slots_ge: "u \<in> slots v \<Longrightarrow> v \<le> u"
proof -
  assume "u \<in> slots v"
  then obtain k where k: "v * 2 ^ k \<le> u"
    by (auto simp: slots_def)
  have "v * 1 \<le> v * 2 ^ k"
    by (rule mult_le_mono2) simp
  then have "v \<le> v * 2 ^ k" by simp
  with k show ?thesis by linarith
qed

lemma slots_disjoint:
  assumes v: "1 \<le> v" and a: "u \<in> slots (2 * v)" and b: "u \<in> slots (2 * v + 1)"
  shows False
proof -
  from a obtain k where k: "2 * v * 2 ^ k \<le> u" "u < (2 * v + 1) * 2 ^ k"
    by (auto simp: slots_def)
  from b obtain j where j: "(2 * v + 1) * 2 ^ j \<le> u" "u < (2 * v + 2) * 2 ^ j"
    by (auto simp: slots_def)
  show False
  proof (cases "k \<le> j")
    case True
    then have "(2::nat) ^ k \<le> 2 ^ j" by simp
    then have "(2 * v + 1) * 2 ^ k \<le> (2 * v + 1) * (2::nat) ^ j"
      by (rule mult_le_mono2)
    with k j show False by simp
  next
    case False
    then have "Suc j \<le> k" by simp
    then have "(2::nat) ^ Suc j \<le> 2 ^ k"
      by (rule power_increasing) simp
    then have "2 * v * 2 ^ Suc j \<le> 2 * v * (2::nat) ^ k"
      by (rule mult_le_mono2)
    then have "4 * (v * 2 ^ j) \<le> 2 * v * (2::nat) ^ k"
      by (simp add: algebra_simps)
    with k have "4 * (v * 2 ^ j) \<le> u"
      by linarith
    moreover from j have "u < 2 * (v * 2 ^ j) + 2 * 2 ^ j"
      by (simp add: algebra_simps)
    ultimately have "v * 2 ^ j < (2::nat) ^ j"
      by linarith
    moreover have "1 * 2 ^ j \<le> v * (2::nat) ^ j"
      using v by (rule mult_le_mono1)
    ultimately show False by simp
  qed
qed

lemma not_in_child_slots:
  assumes "1 \<le> v"
  shows "v \<notin> slots (2 * v)" and "v \<notin> slots (2 * v + 1)"
  using assms slots_ge [of v "2 * v"] slots_ge [of v "2 * v + 1"] by auto

section \<open>One step of build and update\<close>

lemma good_le: "good f xs t v l r \<Longrightarrow> l \<le> r"
  by (induction rule: good.induct) simp_all

lemma good_frame:
  assumes "good f xs t v l r" and "\<forall>u \<in> slots v. t' ! u = t ! u"
  shows "good f xs t' v l r"
  using assms
proof (induction rule: good.induct)
  case (good_leaf v l)
  then show ?case
    by (simp add: good.good_leaf slots_self)
next
  case (good_node l r v)
  have "t' ! v = t ! v" "t' ! (2 * v) = t ! (2 * v)" "t' ! (2 * v + 1) = t ! (2 * v + 1)"
    using good_node.prems slots_self slots_left [of "2 * v" v] slots_right [of "2 * v + 1" v]
    by auto
  moreover have "good f xs t' (2 * v) l ((l + r) div 2)"
    using good_node.IH(1) good_node.prems slots_left by blast
  moreover have "good f xs t' (2 * v + 1) ((l + r) div 2 + 1) r"
    using good_node.IH(2) good_node.prems slots_right by blast
  ultimately show ?case
    using good_node.hyps(1,2) by (simp add: good.good_node)
qed

lemma good_values:
  assumes "good f xs t v l r" and "\<forall>i. l \<le> i \<and> i \<le> r \<longrightarrow> ys ! i = xs ! i"
  shows "good f ys t v l r"
  using assms
proof (induction rule: good.induct)
  case (good_leaf v l)
  then show ?case by (simp add: good.good_leaf)
next
  case (good_node l r v)
  have m: "l \<le> (l + r) div 2" "(l + r) div 2 < r"
    using good_node.hyps(1) by arith+
  have "good f ys t (2 * v) l ((l + r) div 2)"
    using good_node.IH(1) good_node.prems m by simp
  moreover have "good f ys t (2 * v + 1) ((l + r) div 2 + 1) r"
    using good_node.IH(2) good_node.prems m by simp
  ultimately show ?case
    using good_node.hyps(1,2) by (simp add: good.good_node)
qed

lemma combine_Inr:
  "bind (twice v) (\<lambda>lc. bind (vec_get t1 lc) (\<lambda>a.
     bind (twice_plus1 v) (\<lambda>rc. bind (vec_get t1 rc) (\<lambda>b. vec_set t1 v (f a b)))))
     = Some (Inr t')
   \<longleftrightarrow> 2 * v + 1 \<le> INT_MAX \<and> 2 * v + 1 < length t1
       \<and> t' = t1[v := f (t1 ! (2 * v)) (t1 ! (2 * v + 1))]"
  by (auto simp: bind_eq_Inr twice_Inr twice_plus1_Inr vec_get_Inr vec_set_Inr)

lemma update_child:
  assumes "update (Suc d) f idx val v l r t = Some (Inr t')" and "l \<noteq> r"
  shows "\<exists>t1. (if idx \<le> (l + r) div 2
               then update d f idx val (2 * v) l ((l + r) div 2) t
               else update d f idx val (2 * v + 1) ((l + r) div 2 + 1) r t) = Some (Inr t1)
          \<and> 2 * v + 1 \<le> INT_MAX \<and> 2 * v + 1 < length t1
          \<and> t' = t1[v := f (t1 ! (2 * v)) (t1 ! (2 * v + 1))]"
proof -
  let ?m = "(l + r) div 2"
  let ?X = "if idx \<le> ?m
            then bind (twice v) (\<lambda>lc. update d f idx val lc l ?m t)
            else bind (twice_plus1 v) (\<lambda>rc. update d f idx val rc (?m + 1) r t)"
  from assms obtain t1 where X: "?X = Some (Inr t1)"
    and K: "bind (twice v) (\<lambda>lc. bind (vec_get t1 lc) (\<lambda>a.
     bind (twice_plus1 v) (\<lambda>rc. bind (vec_get t1 rc) (\<lambda>b. vec_set t1 v (f a b)))))
     = Some (Inr t')"
    by (simp add: Let_def) (simp only: bind_eq_Inr [of ?X], blast)
  from K have k: "2 * v + 1 \<le> INT_MAX \<and> 2 * v + 1 < length t1
       \<and> t' = t1[v := f (t1 ! (2 * v)) (t1 ! (2 * v + 1))]"
    by (simp only: combine_Inr)
  have "(if idx \<le> ?m then update d f idx val (2 * v) l ?m t
         else update d f idx val (2 * v + 1) (?m + 1) r t) = Some (Inr t1)"
  proof (cases "idx \<le> ?m")
    case True
    with X show ?thesis by (simp add: bind_eq_Inr twice_Inr)
  next
    case False
    with X show ?thesis by (simp add: bind_eq_Inr twice_plus1_Inr)
  qed
  with k show ?thesis by blast
qed


lemma update_leaf:
  "update (Suc d) f idx val v l l t = Some (Inr t') \<longleftrightarrow> v < length t \<and> t' = t[v := val]"
  by (simp add: vec_set_Inr)

lemma update_node:
  assumes "l \<noteq> r"
  shows "update (Suc d) f idx val v l r t = Some (Inr t') \<longleftrightarrow>
    (\<exists>t1. (if idx \<le> (l + r) div 2
               then update d f idx val (2 * v) l ((l + r) div 2) t
               else update d f idx val (2 * v + 1) ((l + r) div 2 + 1) r t) = Some (Inr t1)
          \<and> 2 * v + 1 \<le> INT_MAX \<and> 2 * v + 1 < length t1
          \<and> t' = t1[v := f (t1 ! (2 * v)) (t1 ! (2 * v + 1))])"
proof
  assume "update (Suc d) f idx val v l r t = Some (Inr t')"
  then show "\<exists>t1. (if idx \<le> (l + r) div 2
               then update d f idx val (2 * v) l ((l + r) div 2) t
               else update d f idx val (2 * v + 1) ((l + r) div 2 + 1) r t) = Some (Inr t1)
          \<and> 2 * v + 1 \<le> INT_MAX \<and> 2 * v + 1 < length t1
          \<and> t' = t1[v := f (t1 ! (2 * v)) (t1 ! (2 * v + 1))]"
    using assms by (rule update_child)
next
  assume "\<exists>t1. (if idx \<le> (l + r) div 2
               then update d f idx val (2 * v) l ((l + r) div 2) t
               else update d f idx val (2 * v + 1) ((l + r) div 2 + 1) r t) = Some (Inr t1)
          \<and> 2 * v + 1 \<le> INT_MAX \<and> 2 * v + 1 < length t1
          \<and> t' = t1[v := f (t1 ! (2 * v)) (t1 ! (2 * v + 1))]"
  then obtain t1 where
    c: "(if idx \<le> (l + r) div 2
               then update d f idx val (2 * v) l ((l + r) div 2) t
               else update d f idx val (2 * v + 1) ((l + r) div 2 + 1) r t) = Some (Inr t1)"
    and k: "2 * v + 1 \<le> INT_MAX \<and> 2 * v + 1 < length t1
          \<and> t' = t1[v := f (t1 ! (2 * v)) (t1 ! (2 * v + 1))]"
    by blast
  from k have K: "bind (twice v) (\<lambda>lc. bind (vec_get t1 lc) (\<lambda>a.
     bind (twice_plus1 v) (\<lambda>rc. bind (vec_get t1 rc) (\<lambda>b. vec_set t1 v (f a b)))))
     = Some (Inr t')"
    by (simp only: combine_Inr)
  from k have tw: "twice v = Some (Inr (2 * v))" "twice_plus1 v = Some (Inr (2 * v + 1))"
    by (simp_all add: twice_def twice_plus1_def)
  show "update (Suc d) f idx val v l r t = Some (Inr t')"
  proof (cases "idx \<le> (l + r) div 2")
    case True
    with c assms K tw show ?thesis by (simp add: Let_def)
  next
    case False
    with c assms K tw show ?thesis by (simp add: Let_def)
  qed
qed

lemma build_leaf:
  "build (Suc d) f vec v l l t = Some (Inr t') \<longleftrightarrow>
     l < length vec \<and> v < length t \<and> t' = t[v := vec ! l]"
  by (auto simp: bind_eq_Inr vec_get_Inr vec_set_Inr)

lemma build_node:
  assumes "l \<noteq> r"
  shows "build (Suc d) f vec v l r t = Some (Inr t') \<longleftrightarrow>
    (\<exists>t1 t2. build d f vec (2 * v) l ((l + r) div 2) t = Some (Inr t1)
          \<and> build d f vec (2 * v + 1) ((l + r) div 2 + 1) r t1 = Some (Inr t2)
          \<and> 2 * v + 1 \<le> INT_MAX \<and> 2 * v + 1 < length t2
          \<and> t' = t2[v := f (t2 ! (2 * v)) (t2 ! (2 * v + 1))])"
proof (cases "2 * v + 1 \<le> INT_MAX")
  case True
  then have tw: "twice v = Some (Inr (2 * v))" "twice_plus1 v = Some (Inr (2 * v + 1))"
    by (simp_all add: twice_def twice_plus1_def)
  show ?thesis
    using assms True
    by (simp add: Let_def tw bind_eq_Inr vec_get_Inr vec_set_Inr) fastforce
next
  case False
  then have "\<not> 2 * v \<le> INT_MAX"
    unfolding INT_MAX_def by presburger
  then have "twice v = Some (Inl Signed_overflow)"
    by (simp add: twice_def)
  then have "build (Suc d) f vec v l r t \<noteq> Some (Inr t')"
    using assms by (simp add: Let_def)
  with False show ?thesis by blast
qed


lemma update_frame:
  "update d f idx val v l r t = Some (Inr t')
    \<Longrightarrow> length t' = length t \<and> (\<forall>u. u \<notin> slots v \<longrightarrow> t' ! u = t ! u)"
proof (induction d arbitrary: v l r t t')
  case 0
  then show ?case by simp
next
  case (Suc d)
  show ?case
  proof (cases "l = r")
    case True
    with Suc.prems have "v < length t" "t' = t[v := val]"
      by (simp_all add: vec_set_Inr)
    then show ?thesis
      using slots_self [of v] by (auto simp: nth_list_update)
  next
    case False
    from Suc.prems False obtain t1 where
      c: "(if idx \<le> (l + r) div 2
               then update d f idx val (2 * v) l ((l + r) div 2) t
               else update d f idx val (2 * v + 1) ((l + r) div 2 + 1) r t) = Some (Inr t1)"
      and t': "t' = t1[v := f (t1 ! (2 * v)) (t1 ! (2 * v + 1))]"
      unfolding update_node [OF False] by blast
    have len: "length t1 = length t" and fr: "\<forall>u. u \<notin> slots v \<longrightarrow> t1 ! u = t ! u"
    proof -
      show "length t1 = length t"
        using c Suc.IH by (simp split: if_splits)
      show "\<forall>u. u \<notin> slots v \<longrightarrow> t1 ! u = t ! u"
      proof (cases "idx \<le> (l + r) div 2")
        case True
        with c have "update d f idx val (2 * v) l ((l + r) div 2) t = Some (Inr t1)" by simp
        from Suc.IH [OF this] show ?thesis using slots_left by blast
      next
        case False
        with c have "update d f idx val (2 * v + 1) ((l + r) div 2 + 1) r t = Some (Inr t1)"
          by simp
        from Suc.IH [OF this] show ?thesis using slots_right by blast
      qed
    qed
    show ?thesis
    proof (intro conjI allI impI)
      show "length t' = length t"
        using t' len by simp
    next
      fix u assume u: "u \<notin> slots v"
      then have "u \<noteq> v" using slots_self by blast
      then show "t' ! u = t ! u"
        using t' fr u by simp
    qed
  qed
qed

lemma build_sound:
  "build d f vec v l r t = Some (Inr t') \<Longrightarrow> 1 \<le> v \<Longrightarrow> l \<le> r
    \<Longrightarrow> length t' = length t \<and> (\<forall>u. u \<notin> slots v \<longrightarrow> t' ! u = t ! u)
        \<and> shape (length t) v l r \<and> good f vec t' v l r"
proof (induction d arbitrary: v l r t t')
  case 0
  then show ?case by simp
next
  case (Suc d)
  show ?case
  proof (cases "l = r")
    case True
    with Suc.prems have *: "v < length t" "t' = t[v := vec ! l]"
      by (auto simp: bind_eq_Inr vec_get_Inr vec_set_Inr)
    then have "good f vec t' v l l"
      by (simp add: good_leaf)
    moreover have "shape (length t) v l l"
      using * Suc.prems by (simp add: shape_leaf)
    moreover have "\<forall>u. u \<notin> slots v \<longrightarrow> t' ! u = t ! u"
      using * slots_self [of v] by (auto simp: nth_list_update)
    ultimately show ?thesis
      using True * by simp
  next
    case False
    let ?m = "(l + r) div 2"
    from False Suc.prems have lr: "l < r" by simp
    then have m: "l \<le> ?m" "?m + 1 \<le> r" by arith+
    from Suc.prems(1) obtain t1 t2 where
      b1: "build d f vec (2 * v) l ?m t = Some (Inr t1)" and
      b2: "build d f vec (2 * v + 1) (?m + 1) r t1 = Some (Inr t2)" and
      ov: "2 * v + 1 \<le> INT_MAX" and len2: "2 * v + 1 < length t2" and
      t': "t' = t2[v := f (t2 ! (2 * v)) (t2 ! (2 * v + 1))]"
      unfolding build_node [OF False] by blast
    from Suc.IH [OF b1 _ m(1)] Suc.prems(2) have
      l1: "length t1 = length t" and f1: "\<forall>u. u \<notin> slots (2 * v) \<longrightarrow> t1 ! u = t ! u" and
      s1: "shape (length t) (2 * v) l ?m" and g1: "good f vec t1 (2 * v) l ?m"
      by simp_all
    from Suc.IH [OF b2 _ m(2)] have
      l2: "length t2 = length t1" and f2: "\<forall>u. u \<notin> slots (2 * v + 1) \<longrightarrow> t2 ! u = t1 ! u" and
      s2: "shape (length t1) (2 * v + 1) (?m + 1) r" and g2: "good f vec t2 (2 * v + 1) (?m + 1) r"
      by simp_all
    have nv: "v \<notin> slots (2 * v)" "v \<notin> slots (2 * v + 1)"
      using Suc.prems(2) by (rule not_in_child_slots)+
    have t'_eq: "\<And>u. u \<noteq> v \<Longrightarrow> t' ! u = t2 ! u"
      using t' by simp
    have "good f vec t2 (2 * v) l ?m"
    proof (rule good_frame [OF g1], rule ballI)
      fix u assume "u \<in> slots (2 * v)"
      then have "u \<notin> slots (2 * v + 1)"
        using slots_disjoint [OF Suc.prems(2)] by blast
      with f2 show "t2 ! u = t1 ! u" by simp
    qed
    then have g1': "good f vec t' (2 * v) l ?m"
    proof (rule good_frame, intro ballI)
      fix u assume "u \<in> slots (2 * v)"
      with nv have "u \<noteq> v" by blast
      then show "t' ! u = t2 ! u" by (rule t'_eq)
    qed
    have g2': "good f vec t' (2 * v + 1) (?m + 1) r"
    proof (rule good_frame [OF g2], rule ballI)
      fix u assume "u \<in> slots (2 * v + 1)"
      with nv have "u \<noteq> v" by blast
      then show "t' ! u = t2 ! u" by (rule t'_eq)
    qed
    have "v < length t2" using len2 by simp
    then have "t' ! v = f (t2 ! (2 * v)) (t2 ! (2 * v + 1))"
      using t' by simp
    moreover have "t' ! (2 * v) = t2 ! (2 * v)" "t' ! (2 * v + 1) = t2 ! (2 * v + 1)"
      using Suc.prems(2) by (simp_all add: t'_eq)
    ultimately have "t' ! v = f (t' ! (2 * v)) (t' ! (2 * v + 1))"
      by simp
    with lr have G: "good f vec t' v l r"
      using g1' g2' by (rule good_node)
    have S: "shape (length t) v l r"
      using Suc.prems(2) lr ov _ s1 s2 [unfolded l1]
    proof (rule shape_node)
      show "2 * v + 1 < length t" using len2 l2 l1 by simp
    qed
    have F: "\<forall>u. u \<notin> slots v \<longrightarrow> t' ! u = t ! u"
    proof (intro allI impI)
      fix u assume u: "u \<notin> slots v"
      then have "u \<noteq> v" "u \<notin> slots (2 * v)" "u \<notin> slots (2 * v + 1)"
        using slots_self slots_left slots_right by blast+
      then show "t' ! u = t ! u"
        using t'_eq f1 f2 by simp
    qed
    show ?thesis
      using G S F t' l1 l2 by simp
  qed
qed

section \<open>Updates keep the values in place\<close>

lemma good_node_inv:
  assumes "good f xs t v l r" and "l < r"
  shows "t ! v = f (t ! (2 * v)) (t ! (2 * v + 1))
    \<and> good f xs t (2 * v) l ((l + r) div 2)
    \<and> good f xs t (2 * v + 1) ((l + r) div 2 + 1) r"
  using assms by (cases rule: good.cases) simp_all

lemma update_good:
  "update d f idx val v l r t = Some (Inr t') \<Longrightarrow> 1 \<le> v \<Longrightarrow> good f xs t v l r
    \<Longrightarrow> l \<le> idx \<Longrightarrow> idx \<le> r \<Longrightarrow> r < length xs
    \<Longrightarrow> good f (xs[idx := val]) t' v l r"
proof (induction d arbitrary: v l r t t')
  case 0
  then show ?case by simp
next
  case (Suc d)
  show ?case
  proof (cases "l = r")
    case True
    with Suc.prems have "v < length t" "t' = t[v := val]" "idx = l" "l < length xs"
      by (simp_all add: vec_set_Inr)
    then have "t' ! v = xs[idx := val] ! l"
      by simp
    then show ?thesis
      using True by (simp add: good_leaf)
  next
    case False
    let ?m = "(l + r) div 2"
    let ?ys = "xs[idx := val]"
    from False Suc.prems have lr: "l < r" by simp
    then have m: "l \<le> ?m" "?m < r" by arith+
    from Suc.prems(1) obtain t1 where
      c: "(if idx \<le> ?m then update d f idx val (2 * v) l ?m t
           else update d f idx val (2 * v + 1) (?m + 1) r t) = Some (Inr t1)"
      and len1: "2 * v + 1 < length t1"
      and t': "t' = t1[v := f (t1 ! (2 * v)) (t1 ! (2 * v + 1))]"
      unfolding update_node [OF False] by blast
    from Suc.prems(3) lr have
      gl: "good f xs t (2 * v) l ?m" and gr: "good f xs t (2 * v + 1) (?m + 1) r"
      using good_node_inv by blast+
    have nv: "v \<notin> slots (2 * v)" "v \<notin> slots (2 * v + 1)"
      using Suc.prems(2) by (rule not_in_child_slots)+
    have t'_eq: "\<And>u. u \<noteq> v \<Longrightarrow> t' ! u = t1 ! u"
      using t' by simp
    have G1: "good f ?ys t1 (2 * v) l ?m \<and> good f ?ys t1 (2 * v + 1) (?m + 1) r"
    proof (cases "idx \<le> ?m")
      case True
      with c have u: "update d f idx val (2 * v) l ?m t = Some (Inr t1)" by simp
      have "good f ?ys t1 (2 * v) l ?m"
        using u _ gl Suc.prems(4) True
      proof (rule Suc.IH)
        show "1 \<le> 2 * v" using Suc.prems(2) by simp
        show "?m < length xs" using m Suc.prems(6) by simp
      qed
      moreover have "good f ?ys t (2 * v + 1) (?m + 1) r"
        using gr
      proof (rule good_values, intro allI impI)
        fix i assume "?m + 1 \<le> i \<and> i \<le> r"
        with True have "i \<noteq> idx" by simp
        then show "?ys ! i = xs ! i" by simp
      qed
      then have "good f ?ys t1 (2 * v + 1) (?m + 1) r"
      proof (rule good_frame, intro ballI)
        fix u' assume "u' \<in> slots (2 * v + 1)"
        then have "u' \<notin> slots (2 * v)"
          using slots_disjoint [OF Suc.prems(2)] by blast
        with update_frame [OF u] show "t1 ! u' = t ! u'" by simp
      qed
      ultimately show ?thesis by simp
    next
      case False
      with c have u: "update d f idx val (2 * v + 1) (?m + 1) r t = Some (Inr t1)" by simp
      have "good f ?ys t1 (2 * v + 1) (?m + 1) r"
        using u _ gr _ Suc.prems(5,6)
      proof (rule Suc.IH)
        show "1 \<le> 2 * v + 1" by simp
        show "?m + 1 \<le> idx" using False by simp
      qed
      moreover have "good f ?ys t (2 * v) l ?m"
        using gl
      proof (rule good_values, intro allI impI)
        fix i assume "l \<le> i \<and> i \<le> ?m"
        with False have "i \<noteq> idx" by simp
        then show "?ys ! i = xs ! i" by simp
      qed
      then have "good f ?ys t1 (2 * v) l ?m"
      proof (rule good_frame, intro ballI)
        fix u' assume "u' \<in> slots (2 * v)"
        then have "u' \<notin> slots (2 * v + 1)"
          using slots_disjoint [OF Suc.prems(2)] by blast
        with update_frame [OF u] show "t1 ! u' = t ! u'" by simp
      qed
      ultimately show ?thesis by simp
    qed
    from G1 have "good f ?ys t1 (2 * v) l ?m" by simp
    then have g1': "good f ?ys t' (2 * v) l ?m"
    proof (rule good_frame, intro ballI)
      fix u' assume "u' \<in> slots (2 * v)"
      with nv have "u' \<noteq> v" by blast
      then show "t' ! u' = t1 ! u'" by (rule t'_eq)
    qed
    from G1 have "good f ?ys t1 (2 * v + 1) (?m + 1) r" by simp
    then have g2': "good f ?ys t' (2 * v + 1) (?m + 1) r"
    proof (rule good_frame, intro ballI)
      fix u' assume "u' \<in> slots (2 * v + 1)"
      with nv have "u' \<noteq> v" by blast
      then show "t' ! u' = t1 ! u'" by (rule t'_eq)
    qed
    have "v < length t1" using len1 by simp
    then have "t' ! v = f (t1 ! (2 * v)) (t1 ! (2 * v + 1))"
      using t' by simp
    moreover have "t' ! (2 * v) = t1 ! (2 * v)" "t' ! (2 * v + 1) = t1 ! (2 * v + 1)"
      using Suc.prems(2) by (simp_all add: t'_eq)
    ultimately have "t' ! v = f (t' ! (2 * v)) (t' ! (2 * v + 1))"
      by simp
    with lr show ?thesis
      using g1' g2' by (rule good_node)
  qed
qed

section \<open>Shapes on which build and update return\<close>

declare build.simps(2) [simp del] update.simps(2) [simp del] get.simps(2) [simp del]

lemma shape_leaf_inv: "shape len v l r \<Longrightarrow> 1 \<le> v \<and> v < len \<and> l \<le> r"
  by (induction rule: shape.induct) simp_all

lemma shape_node_inv:
  assumes "shape len v l r" and "l < r"
  shows "2 * v + 1 \<le> INT_MAX \<and> 2 * v + 1 < len
    \<and> shape len (2 * v) l ((l + r) div 2)
    \<and> shape len (2 * v + 1) ((l + r) div 2 + 1) r"
  using assms by (cases rule: shape.cases) simp_all

lemma half_sizes:
  assumes "l < r" and "Suc (r - l) \<le> 2 * x"
  shows "Suc ((l + r) div 2 - l) \<le> x" and "Suc (r - ((l + r) div 2 + 1)) \<le> x"
  using assms by arith+

lemma shape_sufficient:
  "1 \<le> v \<Longrightarrow> l \<le> r \<Longrightarrow> Suc (r - l) \<le> 2 ^ h \<Longrightarrow> (v + 1) * 2 ^ h \<le> len
    \<Longrightarrow> (v + 1) * 2 ^ h \<le> 2 ^ 31 \<Longrightarrow> shape len v l r"
proof (induction h arbitrary: v l r)
  case 0
  then have "l = r" "v < len" by simp_all
  with 0 show ?case by (simp add: shape_leaf)
next
  case (Suc h)
  have one: "(v + 1) * 1 \<le> (v + 1) * 2 ^ Suc h"
    by (rule mult_le_mono2) simp
  show ?case
  proof (cases "l = r")
    case True
    from one Suc.prems(4) have "v < len" by simp
    with True Suc.prems(1) show ?thesis by (simp add: shape_leaf)
  next
    case False
    with Suc.prems have lr: "l < r" by simp
    have two: "(v + 1) * 2 \<le> (v + 1) * 2 ^ Suc h"
      by (rule mult_le_mono2) simp
    from two Suc.prems(5) have ov: "2 * v + 1 \<le> INT_MAX"
      by (simp add: INT_MAX_def)
    from two Suc.prems(4) have ln: "2 * v + 1 < len"
      by simp
    have sz: "Suc ((l + r) div 2 - l) \<le> 2 ^ h" "Suc (r - ((l + r) div 2 + 1)) \<le> 2 ^ h"
      using half_sizes [OF lr, of "2 ^ h"] Suc.prems(3) by simp_all
    have m: "l \<le> (l + r) div 2" "(l + r) div 2 + 1 \<le> r"
      using lr by arith+
    have le: "(2 * v + 1) * 2 ^ h \<le> (2 * v + 1 + 1) * (2::nat) ^ h"
      by (rule mult_le_mono1) simp
    have eq: "(2 * v + 1 + 1) * 2 ^ h = (v + 1) * (2::nat) ^ Suc h"
      by simp
    have sl: "shape len (2 * v) l ((l + r) div 2)"
    proof (rule Suc.IH [OF _ m(1) sz(1)])
      show "1 \<le> 2 * v" using Suc.prems(1) by simp
      show "(2 * v + 1) * 2 ^ h \<le> len" using le eq Suc.prems(4) by linarith
      show "(2 * v + 1) * 2 ^ h \<le> 2 ^ 31" using le eq Suc.prems(5) by linarith
    qed
    have sr: "shape len (2 * v + 1) ((l + r) div 2 + 1) r"
    proof (rule Suc.IH [OF _ m(2) sz(2)])
      show "1 \<le> 2 * v + 1" by simp
      show "(2 * v + 1 + 1) * 2 ^ h \<le> len" using eq Suc.prems(4) by linarith
      show "(2 * v + 1 + 1) * 2 ^ h \<le> 2 ^ 31" using eq Suc.prems(5) by linarith
    qed
    from Suc.prems(1) lr ov ln sl sr show ?thesis
      by (rule shape_node)
  qed
qed

lemma build_total:
  "shape (length t) v l r \<Longrightarrow> r < length vec \<Longrightarrow> Suc (r - l) \<le> 2 ^ d
    \<Longrightarrow> \<exists>t'. build (Suc d) f vec v l r t = Some (Inr t')"
proof (induction d arbitrary: v l r t)
  case 0
  then have "l = r" "v < length t"
    using shape_leaf_inv [of "length t" v l r] by simp_all
  with 0 show ?case
    by (simp add: build_leaf)
next
  case (Suc d)
  have v: "1 \<le> v" "v < length t" "l \<le> r"
    using shape_leaf_inv [OF Suc.prems(1)] by simp_all
  show ?case
  proof (cases "l = r")
    case True
    with v Suc.prems(2) show ?thesis
      by (simp add: build_leaf)
  next
    case False
    let ?m = "(l + r) div 2"
    from False v have lr: "l < r" by simp
    then have m: "l \<le> ?m" "?m + 1 \<le> r" "?m < r" by arith+
    from shape_node_inv [OF Suc.prems(1) lr] have
      ov: "2 * v + 1 \<le> INT_MAX" and ln: "2 * v + 1 < length t" and
      sl: "shape (length t) (2 * v) l ?m" and sr: "shape (length t) (2 * v + 1) (?m + 1) r"
      by simp_all
    have sz: "Suc (?m - l) \<le> 2 ^ d" "Suc (r - (?m + 1)) \<le> 2 ^ d"
      using half_sizes [OF lr, of "2 ^ d"] Suc.prems(3) by simp_all
    from Suc.IH [OF sl _ sz(1)] m Suc.prems(2) obtain t1 where
      b1: "build (Suc d) f vec (2 * v) l ?m t = Some (Inr t1)"
      by auto
    have l1: "length t1 = length t"
      using build_sound [OF b1 _ m(1)] v(1) by simp
    from Suc.IH [OF sr [folded l1] Suc.prems(2) sz(2)] obtain t2 where
      b2: "build (Suc d) f vec (2 * v + 1) (?m + 1) r t1 = Some (Inr t2)"
      by auto
    have l2: "length t2 = length t1"
      using build_sound [OF b2 _ m(2)] by simp
    have "build (Suc (Suc d)) f vec v l r t
      = Some (Inr (t2[v := f (t2 ! (2 * v)) (t2 ! (2 * v + 1))]))"
      unfolding build_node [OF False] using b1 b2 ov ln l1 l2 by simp
    then show ?thesis by blast
  qed
qed

lemma update_total:
  "shape (length t) v l r \<Longrightarrow> Suc (r - l) \<le> 2 ^ d
    \<Longrightarrow> \<exists>t'. update (Suc d) f idx val v l r t = Some (Inr t')"
proof (induction d arbitrary: v l r t)
  case 0
  then have "l = r" "v < length t"
    using shape_leaf_inv [of "length t" v l r] by simp_all
  then show ?case
    by (simp add: update_leaf)
next
  case (Suc d)
  have v: "1 \<le> v" "v < length t" "l \<le> r"
    using shape_leaf_inv [OF Suc.prems(1)] by simp_all
  show ?case
  proof (cases "l = r")
    case True
    with v show ?thesis
      by (simp add: update_leaf)
  next
    case False
    let ?m = "(l + r) div 2"
    from False v have lr: "l < r" by simp
    from shape_node_inv [OF Suc.prems(1) lr] have
      ov: "2 * v + 1 \<le> INT_MAX" and ln: "2 * v + 1 < length t" and
      sl: "shape (length t) (2 * v) l ?m" and sr: "shape (length t) (2 * v + 1) (?m + 1) r"
      by simp_all
    have sz: "Suc (?m - l) \<le> 2 ^ d" "Suc (r - (?m + 1)) \<le> 2 ^ d"
      using half_sizes [OF lr, of "2 ^ d"] Suc.prems(2) by simp_all
    obtain t1 where c: "(if idx \<le> ?m then update (Suc d) f idx val (2 * v) l ?m t
           else update (Suc d) f idx val (2 * v + 1) (?m + 1) r t) = Some (Inr t1)"
      using Suc.IH [OF sl sz(1)] Suc.IH [OF sr sz(2)] by (cases "idx \<le> ?m") auto
    have l1: "length t1 = length t"
    proof (cases "idx \<le> ?m")
      case True
      with c have "update (Suc d) f idx val (2 * v) l ?m t = Some (Inr t1)" by simp
      from update_frame [OF this] show ?thesis by simp
    next
      case False
      with c have "update (Suc d) f idx val (2 * v + 1) (?m + 1) r t = Some (Inr t1)" by simp
      from update_frame [OF this] show ?thesis by simp
    qed
    have "update (Suc (Suc d)) f idx val v l r t
      = Some (Inr (t1[v := f (t1 ! (2 * v)) (t1 ! (2 * v + 1))]))"
      unfolding update_node [OF False] using c ov ln l1 by auto
    then show ?thesis by blast
  qed
qed

section \<open>The private get reads and leaves the tree\<close>

lemma twice_cases:
  "(twice v = Some (Inr (2 * v)) \<and> twice_plus1 v = Some (Inr (2 * v + 1)) \<and> 2 * v + 1 \<le> INT_MAX)
   \<or> (twice v = Some (Inl Signed_overflow) \<and> twice_plus1 v = Some (Inl Signed_overflow))"
proof (cases "2 * v + 1 \<le> INT_MAX")
  case True
  then show ?thesis by (simp add: twice_def twice_plus1_def)
next
  case False
  then have "\<not> 2 * v \<le> INT_MAX"
    unfolding INT_MAX_def by presburger
  with False show ?thesis by (simp add: twice_def twice_plus1_def)
qed

lemma bind_return: "bind m (\<lambda>x. Some (Inr x)) = m"
  by (auto simp: bind_def split: option.splits sum.splits)

lemma get_state: "get d f left right v l r t = Some (Inr (x, t')) \<Longrightarrow> t' = t"
proof (induction d arbitrary: v l r x t t')
  case 0
  then show ?case by simp
next
  case (Suc d)
  let ?m = "(l + r) div 2"
  consider (cover) "left \<le> l \<and> r \<le> right"
    | (lo) "\<not> (left \<le> l \<and> r \<le> right)" "right \<le> ?m"
    | (hi) "\<not> (left \<le> l \<and> r \<le> right)" "\<not> right \<le> ?m" "left > ?m"
    | (both) "\<not> (left \<le> l \<and> r \<le> right)" "\<not> right \<le> ?m" "\<not> left > ?m"
    by blast
  then show ?case
  proof cases
    case cover
    with Suc.prems show ?thesis
      by (simp add: get.simps bind_eq_Inr)
  next
    case lo
    with Suc.prems obtain c where "get d f left right c l ?m t = Some (Inr (x, t'))"
      by (auto simp: get.simps Let_def bind_eq_Inr)
    then show ?thesis by (rule Suc.IH)
  next
    case hi
    with Suc.prems obtain c where "get d f left right c (?m + 1) r t = Some (Inr (x, t'))"
      by (auto simp: get.simps Let_def bind_eq_Inr)
    then show ?thesis by (rule Suc.IH)
  next
    case both
    with Suc.prems obtain c a t1 c' b where
      g1: "get d f left right c l ?m t = Some (Inr (a, t1))" and
      g2: "get d f left right c' (?m + 1) r t1 = Some (Inr (b, t'))"
      by (auto simp: get.simps Let_def bind_eq_Inr split: prod.splits)
    from Suc.IH [OF g1] Suc.IH [OF g2] show ?thesis by simp
  qed
qed

lemma get_char:
  "get d f left right v l r t
    = bind (get_val d f left right v l r t) (\<lambda>x. Some (Inr (x, t)))"
proof (cases "get d f left right v l r t")
  case None
  then show ?thesis by (simp add: get_val_def value_of_def)
next
  case (Some res)
  show ?thesis
  proof (cases res)
    case (Inl e)
    with Some show ?thesis by (simp add: get_val_def value_of_def)
  next
    case (Inr p)
    obtain x t' where p: "p = (x, t')" by (cases p)
    with Some Inr have "t' = t" using get_state [of d f left right v l r t x t'] by simp
    with Some Inr p show ?thesis by (simp add: get_val_def value_of_def)
  qed
qed

lemma get_val_0: "get_val 0 f left right v l r t = None"
  by (simp add: get_val_def value_of_def)

lemma get_val_Suc:
  "get_val (Suc d) f left right v l r t =
    (if left \<le> l \<and> r \<le> right then vec_get t v
     else
       if right \<le> (l + r) div 2 then
         bind (twice v) (\<lambda>lc. get_val d f left right lc l ((l + r) div 2) t)
       else if left > (l + r) div 2 then
         bind (twice_plus1 v) (\<lambda>rc. get_val d f left right rc ((l + r) div 2 + 1) r t)
       else
         bind (twice v) (\<lambda>lc.
         bind (get_val d f left right lc l ((l + r) div 2) t) (\<lambda>a.
         bind (twice_plus1 v) (\<lambda>rc.
         bind (get_val d f left right rc ((l + r) div 2 + 1) r t) (\<lambda>b.
         Some (Inr (f a b)))))))"
proof -
  have v: "\<And>m. value_of (bind m (\<lambda>x. Some (Inr (x, t)))) = (m :: 'a outcome)"
    by (auto simp: value_of_def bind_def split: option.splits sum.splits)
  show ?thesis
    unfolding get_val_def [of "Suc d"] get.simps(2) Let_def
    by (simp add: get_char [of d] v)
      (simp add: value_of_def bind_assoc bind_return)
qed

section \<open>What the private get returns\<close>

lemma get_val_frame:
  "length t' = length t \<Longrightarrow> \<forall>u \<in> slots v. t' ! u = t ! u
    \<Longrightarrow> get_val d f left right v l r t' = get_val d f left right v l r t"
proof (induction d arbitrary: v l r)
  case 0
  show ?case by (simp add: get_val_0)
next
  case (Suc d)
  let ?m = "(l + r) div 2"
  have here: "vec_get t' v = vec_get t v"
    using Suc.prems slots_self [of v] by (simp add: vec_get_def)
  have lo: "get_val d f left right (2 * v) l ?m t' = get_val d f left right (2 * v) l ?m t"
    using Suc.prems slots_left by (intro Suc.IH) blast+
  have hi: "get_val d f left right (2 * v + 1) (?m + 1) r t'
      = get_val d f left right (2 * v + 1) (?m + 1) r t"
    using Suc.prems slots_right by (intro Suc.IH) blast+
  from twice_cases [of v] show ?case
  proof
    assume "twice v = Some (Inr (2 * v)) \<and> twice_plus1 v = Some (Inr (2 * v + 1))
      \<and> 2 * v + 1 \<le> INT_MAX"
    then show ?thesis
      using here lo hi by (simp add: get_val_Suc)
  next
    assume "twice v = Some (Inl Signed_overflow) \<and> twice_plus1 v = Some (Inl Signed_overflow)"
    then show ?thesis
      using here by (simp add: get_val_Suc)
  qed
qed

lemma agg_single: "agg f xs l l = xs ! l"
  by (simp add: agg_def)

lemma foldl_assoc:
  "associative f \<Longrightarrow> foldl f (f a z) zs = f a (foldl f z zs)"
proof (induction zs arbitrary: z)
  case Nil
  show ?case by simp
next
  case (Cons y zs)
  from Cons.prems have "f (f a z) y = f a (f z y)"
    by (simp add: associative_def)
  with Cons show ?case by simp
qed

lemma agg_split:
  assumes "associative f" and "l \<le> m" and "m < r"
  shows "agg f xs l r = f (agg f xs l m) (agg f xs (Suc m) r)"
proof -
  have "[Suc l..<Suc r] = [Suc l..<Suc m] @ [Suc m..<Suc r]"
    using assms(2,3) upt_add_eq_append [of "Suc l" "Suc m" "r - m"] by simp
  also have "[Suc m..<Suc r] = Suc m # [Suc (Suc m)..<Suc r]"
    using assms(3) by (simp add: upt_conv_Cons)
  finally have "[Suc l..<Suc r] = [Suc l..<Suc m] @ Suc m # [Suc (Suc m)..<Suc r]" .
  then show ?thesis
    unfolding agg_def using foldl_assoc [OF assms(1)] by simp
qed

lemma good_root:
  "good f xs t v l r \<Longrightarrow> associative f \<Longrightarrow> t ! v = agg f xs l r"
proof (induction rule: good.induct)
  case (good_leaf v l)
  then show ?case by (simp add: agg_single)
next
  case (good_node l r v)
  have "l \<le> (l + r) div 2" "(l + r) div 2 < r"
    using good_node.hyps(1) by arith+
  from agg_split [OF good_node.prems this] good_node show ?case
    by simp
qed

lemma get_val_good:
  "get_val d f left right v l r t = Some (Inr x) \<Longrightarrow> good f xs t v l r \<Longrightarrow> associative f
    \<Longrightarrow> left \<le> right \<Longrightarrow> left \<le> r \<Longrightarrow> l \<le> right
    \<Longrightarrow> x = agg f xs (max left l) (min right r)"
proof (induction d arbitrary: v l r x)
  case 0
  then show ?case by (simp add: get_val_0)
next
  case (Suc d)
  let ?m = "(l + r) div 2"
  show ?case
  proof (cases "left \<le> l \<and> r \<le> right")
    case True
    with Suc.prems(1) have "x = t ! v"
      by (simp add: get_val_Suc vec_get_Inr)
    moreover from True have "max left l = l" "min right r = r" by simp_all
    ultimately show ?thesis
      using good_root [OF Suc.prems(2,3)] by simp
  next
    case False
    have "l \<le> r" using Suc.prems(2) by (rule good_le)
    with False Suc.prems(5,6) have lr: "l < r" by linarith
    then have m: "l \<le> ?m" "?m < r" by arith+
    from good_node_inv [OF Suc.prems(2) lr] have
      gl: "good f xs t (2 * v) l ?m" and gr: "good f xs t (2 * v + 1) (?m + 1) r"
      by simp_all
    from twice_cases [of v] Suc.prems(1) False have
      tw: "twice v = Some (Inr (2 * v))" "twice_plus1 v = Some (Inr (2 * v + 1))"
      by (auto simp: get_val_Suc split: if_splits)
    consider (lo) "right \<le> ?m" | (hi) "\<not> right \<le> ?m" "left > ?m"
      | (both) "\<not> right \<le> ?m" "\<not> left > ?m"
      by blast
    then show ?thesis
    proof cases
      case lo
      with Suc.prems(1) False tw have
        "get_val d f left right (2 * v) l ?m t = Some (Inr x)"
        by (simp add: get_val_Suc)
      from Suc.IH [OF this gl Suc.prems(3,4) _ Suc.prems(6)] lo Suc.prems(4) m
      show ?thesis by (simp add: min_def)
    next
      case hi
      with Suc.prems(1) False tw have
        "get_val d f left right (2 * v + 1) (?m + 1) r t = Some (Inr x)"
        by (simp add: get_val_Suc)
      moreover from hi m have "max left (?m + 1) = left" "max left l = left"
        by simp_all
      ultimately show ?thesis
        using Suc.IH [OF _ gr Suc.prems(3,4,5), of x] hi by simp
    next
      case both
      with Suc.prems(1) False tw obtain a b where
        a: "get_val d f left right (2 * v) l ?m t = Some (Inr a)" and
        b: "get_val d f left right (2 * v + 1) (?m + 1) r t = Some (Inr b)" and
        x: "x = f a b"
        by (auto simp: get_val_Suc bind_eq_Inr)
      from Suc.IH [OF a gl Suc.prems(3,4) _ Suc.prems(6)] both
      have a': "a = agg f xs (max left l) ?m" by (simp add: min_def)
      from both have "max left (?m + 1) = ?m + 1" by simp
      with Suc.IH [OF b gr Suc.prems(3,4,5)] both
      have b': "b = agg f xs (Suc ?m) (min right r)" by simp
      have "max left l \<le> ?m" "?m < min right r"
        using both m by simp_all
      from agg_split [OF Suc.prems(3) this] a' b' x show ?thesis by simp
    qed
  qed
qed

lemma get_val_node:
  assumes "\<not> (left \<le> l \<and> r \<le> right)" and "2 * v + 1 \<le> INT_MAX"
  shows "get_val (Suc d) f left right v l r t =
    (if right \<le> (l + r) div 2 then get_val d f left right (2 * v) l ((l + r) div 2) t
     else if left > (l + r) div 2
       then get_val d f left right (2 * v + 1) ((l + r) div 2 + 1) r t
     else
       bind (get_val d f left right (2 * v) l ((l + r) div 2) t) (\<lambda>a.
       bind (get_val d f left right (2 * v + 1) ((l + r) div 2 + 1) r t) (\<lambda>b.
       Some (Inr (f a b)))))"
proof -
  from assms(2) have "twice v = Some (Inr (2 * v))" "twice_plus1 v = Some (Inr (2 * v + 1))"
    by (simp_all add: twice_def twice_plus1_def)
  then show ?thesis
    unfolding get_val_Suc if_not_P [OF assms(1)] by simp
qed

lemma get_val_total:
  "shape (length t) v l r \<Longrightarrow> Suc (r - l) \<le> 2 ^ d
    \<Longrightarrow> left \<le> right \<Longrightarrow> left \<le> r \<Longrightarrow> l \<le> right
    \<Longrightarrow> \<exists>x. get_val (Suc d) f left right v l r t = Some (Inr x)"
proof (induction d arbitrary: v l r)
  case 0
  then have "l = r" "v < length t"
    using shape_leaf_inv [of "length t" v l r] by simp_all
  with 0 show ?case
    by (simp add: get_val_Suc vec_get_def)
next
  case (Suc d)
  let ?m = "(l + r) div 2"
  have v: "1 \<le> v" "v < length t" "l \<le> r"
    using shape_leaf_inv [OF Suc.prems(1)] by simp_all
  show ?case
  proof (cases "left \<le> l \<and> r \<le> right")
    case True
    with v show ?thesis
      by (simp add: get_val_Suc vec_get_def)
  next
    case False
    with v Suc.prems(4,5) have lr: "l < r" by linarith
    then have m: "l \<le> ?m" "?m < r" by arith+
    from shape_node_inv [OF Suc.prems(1) lr] have
      ov: "2 * v + 1 \<le> INT_MAX" and
      sl: "shape (length t) (2 * v) l ?m" and sr: "shape (length t) (2 * v + 1) (?m + 1) r"
      by simp_all
    from ov have tw: "twice v = Some (Inr (2 * v))" "twice_plus1 v = Some (Inr (2 * v + 1))"
      by (simp_all add: twice_def twice_plus1_def)
    have sz: "Suc (?m - l) \<le> 2 ^ d" "Suc (r - (?m + 1)) \<le> 2 ^ d"
      using half_sizes [OF lr, of "2 ^ d"] Suc.prems(2) by simp_all
    consider (lo) "right \<le> ?m" | (hi) "\<not> right \<le> ?m" "left > ?m"
      | (both) "\<not> right \<le> ?m" "\<not> left > ?m"
      by blast
    then show ?thesis
    proof cases
      case lo
      have "\<exists>x. get_val (Suc d) f left right (2 * v) l ?m t = Some (Inr x)"
        using sl sz(1) Suc.prems(3) _ Suc.prems(5)
      proof (rule Suc.IH)
        show "left \<le> ?m" using lo Suc.prems(3) by simp
      qed
      with lo show ?thesis
        by (simp add: get_val_node [OF False ov])
    next
      case hi
      have "\<exists>x. get_val (Suc d) f left right (2 * v + 1) (?m + 1) r t = Some (Inr x)"
        using sr sz(2) Suc.prems(3,4)
      proof (rule Suc.IH)
        show "?m + 1 \<le> right" using hi by simp
      qed
      with hi show ?thesis
        by (simp add: get_val_node [OF False ov])
    next
      case both
      have "\<exists>x. get_val (Suc d) f left right (2 * v) l ?m t = Some (Inr x)"
        using sl sz(1) Suc.prems(3) _ Suc.prems(5)
      proof (rule Suc.IH)
        show "left \<le> ?m" using both by simp
      qed
      moreover have "\<exists>x. get_val (Suc d) f left right (2 * v + 1) (?m + 1) r t = Some (Inr x)"
        using sr sz(2) Suc.prems(3,4)
      proof (rule Suc.IH)
        show "?m + 1 \<le> right" using both by simp
      qed
      ultimately show ?thesis
        using both by (auto simp: get_val_node [OF False ov])
    qed
  qed
qed

section \<open>Queries and updates outside the range\<close>

lemma four_eq: "(4::nat) = Suc (Suc (Suc (Suc 0)))"
  by simp

lemma value_of_get_public:
  "value_of (get_public d st left right) =
    (if left \<le> right \<and> right < n st
     then get_val d (foo st) left right 1 0 (n st - 1) (tree st) else Some (Inr 0))"
  by (simp add: get_public_def get_char value_of_def bind_assoc bind_return)

lemma get_public_char:
  "get_public d st left right =
    bind (value_of (get_public d st left right)) (\<lambda>x. Some (Inr (x, st)))"
  by (simp add: value_of_get_public) (simp add: get_public_def get_char bind_assoc)

text \<open>
  C8. A query changes nothing: whenever \<open>query(left, right)\<close> returns, the tree it
  leaves behind (storage, size and combiner) is the tree it was called on.
\<close>

theorem query_no_mutation:
  "get_public d st left right = Some (Inr (x, st')) \<Longrightarrow> st' = st"
  using get_public_char [of d st left right] by (simp add: value_of_def)

theorem query_no_mutation_witness:
  "get_public 1 \<lparr>n = 1, tree = [0, 5, 0, 0], foo = (\<lambda>a b. a + b)\<rparr> 0 0
     = Some (Inr (5 :: cint, \<lparr>n = 1, tree = [0, 5, 0, 0], foo = (\<lambda>a b. a + b)\<rparr>))"
proof -
  have *: "get_public 1 \<lparr>n = 1, tree = [0, 5, 0, 0], foo = (\<lambda>a b. a + b)\<rparr> 0 0
     = Some (Inr (5 :: cint, \<lparr>n = 1, tree = [0, 5, 0, 0], foo = (\<lambda>a b. a + b)\<rparr>))"
    by (simp add: get_public_def get.simps vec_get_def)
  from query_no_mutation [OF *] * show ?thesis by simp
qed

text \<open>
  C5. \<open>update_point\<close> with an index that is not below \<open>n\<close> returns without an error
  and leaves the tree as it was: every slot, the size and the combiner.
\<close>

theorem update_point_out_of_range:
  "n st \<le> point \<Longrightarrow> update_point d st point new_val = Some (Inr st)"
  by (simp add: update_point_def)

theorem update_point_out_of_range_witness:
  "update_point 0 \<lparr>n = 1, tree = [0, 5, 0, 0], foo = (\<lambda>a b. a + b)\<rparr> 1 (9 :: cint)
     = Some (Inr \<lparr>n = 1, tree = [0, 5, 0, 0], foo = (\<lambda>a b. a + b)\<rparr>)"
  using update_point_out_of_range
    [of "\<lparr>n = 1, tree = [0, 5, 0, 0], foo = (\<lambda>a b. a + b)\<rparr>" 1 0 "9 :: cint"]
  by simp

text \<open>
  C4, as the code has it. A query with \<open>left > right\<close> or \<open>right \<ge> n\<close> returns
  \<^verbatim>\<open>T(0)\<close>, the zero of the element type, whatever the combiner is, and leaves the
  tree as it was. The zero is the neutral element of the default combiner, the sum.
\<close>

theorem query_ill_formed_range:
  fixes st :: "('a::monoid_add) segment_tree"
  shows "right < left \<or> n st \<le> right
    \<Longrightarrow> get_public d st left right = Some (Inr (0, st)) \<and> neutral (\<lambda>a b. a + b) (0 :: 'a)"
  by (auto simp: get_public_def neutral_def)

theorem query_ill_formed_range_witness:
  "get_public 0 \<lparr>n = 1, tree = [0, 5, 0, 0], foo = (\<lambda>a b. a * b)\<rparr> 3 1
     = Some (Inr (0 :: cint, \<lparr>n = 1, tree = [0, 5, 0, 0], foo = (\<lambda>a b. a * b)\<rparr>))"
  using query_ill_formed_range
    [of 1 3 "\<lparr>n = 1, tree = [0, 5, 0, 0], foo = (\<lambda>a b. a * b) :: cint \<Rightarrow> cint \<Rightarrow> cint\<rparr>" 0]
  by simp

text \<open>
  The claim C4 as it is written fails for the product: on the tree built from
  \<open>[2, 4, 1, 42, 9]\<close> with the product as combiner, \<open>query(3, 1)\<close> returns 0, and 0 is
  not a neutral element of the product.
\<close>

theorem query_ill_formed_range_counterexample:
  "bind (segment_tree_vec_foo 4 [2, 4, 1, 42, 9] (\<lambda>a b. a * b)) (\<lambda>st. run 4 st [Get 3 1])
     = Some (Inr [0])
   \<and> \<not> neutral (\<lambda>a b. a * b) (0 :: cint)"
proof
  show "bind (segment_tree_vec_foo 4 [2, 4, 1, 42, 9] (\<lambda>a b. a * b))
      (\<lambda>st. run 4 st [Get 3 1]) = Some (Inr [0])"
    unfolding four_eq
    by (simp add: segment_tree_vec_foo_def vec_assign_def max_size_def bind_def vec_get_def
      vec_set_def twice_def twice_plus1_def INT_MAX_def get_public_def build.simps)
  show "\<not> neutral (\<lambda>a b. a * b) (0 :: cint)"
  proof
    assume "neutral (\<lambda>a b. a * b) (0 :: cint)"
    then have "(0 :: cint) * 1 = 1" unfolding neutral_def by blast
    then show False by simp
  qed
qed

text \<open>
  C6, as the code has it. Both constructors from a sequence make of the empty
  sequence the tree with \<open>n = 0\<close> and an empty storage, at every call depth. On
  that tree every query returns \<^verbatim>\<open>T(0)\<close>, and every \<open>update_point\<close> returns the tree
  unchanged.
\<close>

theorem empty_tree:
  "segment_tree_vec_foo d [] f = Some (Inr \<lparr>n = 0, tree = [], foo = f\<rparr>)
   \<and> segment_tree_vec d [] = Some (Inr \<lparr>n = 0, tree = [], foo = (\<lambda>a b. a + b)\<rparr>)
   \<and> get_public d' \<lparr>n = 0, tree = [], foo = f\<rparr> left right
       = Some (Inr (0, \<lparr>n = 0, tree = [], foo = f\<rparr>))
   \<and> update_point d' \<lparr>n = 0, tree = [], foo = f\<rparr> point new_val
       = Some (Inr \<lparr>n = 0, tree = [], foo = f\<rparr>)"
  by (simp add: segment_tree_vec_foo_def segment_tree_vec_def vec_assign_def max_size_def
      get_public_def update_point_def)

text \<open>
  The claim C6 as it is written fails for the product: the tree built from the empty
  sequence with the product as combiner answers \<open>query(0, 0)\<close> with 0, which is not
  a neutral element of the product.
\<close>

theorem empty_tree_counterexample:
  "bind (segment_tree_vec_foo 0 [] (\<lambda>a b. a * b)) (\<lambda>st. run 0 st [Get 0 0])
     = Some (Inr [0])
   \<and> \<not> neutral (\<lambda>a b. a * b) (0 :: cint)"
proof
  show "bind (segment_tree_vec_foo 0 [] (\<lambda>a b. a * b)) (\<lambda>st. run 0 st [Get 0 0])
      = Some (Inr [0])"
    by (simp add: segment_tree_vec_foo_def vec_assign_def max_size_def get_public_def)
  show "\<not> neutral (\<lambda>a b. a * b) (0 :: cint)"
  proof
    assume "neutral (\<lambda>a b. a * b) (0 :: cint)"
    then have "(0 :: cint) * 1 = 1" unfolding neutral_def by blast
    then show False by simp
  qed
qed

section \<open>Trees built from a sequence\<close>

lemma segment_tree_vec_foo_Inr:
  "segment_tree_vec_foo d vec f = Some (Inr st) \<Longrightarrow>
    n st = length vec \<and> foo st = f \<and>
    (vec \<noteq> [] \<longrightarrow> (\<exists>t. build d f vec 1 0 (length vec - 1) t = Some (Inr (tree st))))"
  by (auto simp: segment_tree_vec_foo_def Let_def bind_eq_Inr split: if_splits)

lemma segment_tree_vec_Inr:
  "segment_tree_vec d vec = Some (Inr st) \<Longrightarrow>
    n st = length vec \<and> foo st = (\<lambda>a b. a + b) \<and>
    (vec \<noteq> [] \<longrightarrow>
      (\<exists>t. build d (\<lambda>a b. a + b) vec 1 0 (length vec - 1) t = Some (Inr (tree st))))"
  by (auto simp: segment_tree_vec_def Let_def bind_eq_Inr split: if_splits)

lemma update_point_Inr:
  assumes "update_point d st point new_val = Some (Inr st')"
  shows "n st' = n st" and "foo st' = foo st"
    and "point < n st \<Longrightarrow>
      update d (foo st) point new_val 1 0 (n st - 1) (tree st) = Some (Inr (tree st'))"
    and "\<not> point < n st \<Longrightarrow> st' = st"
  using assms by (auto simp: update_point_def bind_eq_Inr split: if_splits)

lemma built_inv_conj:
  "built f xs st \<Longrightarrow>
    foo st = f \<and> n st = length xs \<and>
    (0 < n st \<longrightarrow> shape (length (tree st)) 1 0 (n st - 1) \<and> good f xs (tree st) 1 0 (n st - 1))"
proof (induction rule: built.induct)
  case (from_vec_foo d vec f st)
  from segment_tree_vec_foo_Inr [OF this] have
    st: "n st = length vec" "foo st = f" and
    b: "vec \<noteq> [] \<longrightarrow> (\<exists>t. build d f vec 1 0 (length vec - 1) t = Some (Inr (tree st)))"
    by simp_all
  show ?case
  proof (cases "vec = []")
    case True
    with st show ?thesis by simp
  next
    case False
    with b obtain t where "build d f vec 1 0 (length vec - 1) t = Some (Inr (tree st))"
      by blast
    from build_sound [OF this] have "shape (length (tree st)) 1 0 (length vec - 1)"
      "good f vec (tree st) 1 0 (length vec - 1)" by simp_all
    with st show ?thesis by simp
  qed
next
  case (from_vec d vec st)
  from segment_tree_vec_Inr [OF this] have
    st: "n st = length vec" "foo st = (\<lambda>a b. a + b)" and
    b: "vec \<noteq> [] \<longrightarrow>
      (\<exists>t. build d (\<lambda>a b. a + b) vec 1 0 (length vec - 1) t = Some (Inr (tree st)))"
    by simp_all
  show ?case
  proof (cases "vec = []")
    case True
    with st show ?thesis by simp
  next
    case False
    with b obtain t where
      "build d (\<lambda>a b. a + b) vec 1 0 (length vec - 1) t = Some (Inr (tree st))"
      by blast
    from build_sound [OF this] have "shape (length (tree st)) 1 0 (length vec - 1)"
      "good (\<lambda>a b. a + b) vec (tree st) 1 0 (length vec - 1)" by simp_all
    with st show ?thesis by simp
  qed
next
  case (updated f xs st d point new_val st')
  note st' = update_point_Inr [OF updated.hyps(2)]
  from updated.IH have inv: "foo st = f" "n st = length xs"
    and sg: "0 < n st \<Longrightarrow> shape (length (tree st)) 1 0 (n st - 1)"
      "0 < n st \<Longrightarrow> good f xs (tree st) 1 0 (n st - 1)"
    by auto
  show ?case
  proof (cases "point < n st")
    case True
    with st'(3) inv have
      up: "update d f point new_val 1 0 (n st - 1) (tree st) = Some (Inr (tree st'))"
      by simp
    from True have pos: "0 < n st" by simp
    have "good f (xs[point := new_val]) (tree st') 1 0 (n st - 1)"
      using up _ sg(2) [OF pos]
    proof (rule update_good)
      show "point \<le> n st - 1" "n st - 1 < length xs" using True inv by simp_all
    qed simp_all
    moreover have "length (tree st') = length (tree st)"
      using update_frame [OF up] by simp
    ultimately show ?thesis
      using st'(1,2) inv sg(1) [OF pos] by simp
  next
    case False
    with st'(4) inv have "st' = st" "xs[point := new_val] = xs"
      by (simp_all add: list_update_beyond)
    with updated.IH show ?thesis by auto
  qed
qed

lemma built_inv:
  assumes "built f xs st"
  shows "foo st = f" and "n st = length xs"
    and "0 < n st \<Longrightarrow> shape (length (tree st)) 1 0 (n st - 1)"
    and "0 < n st \<Longrightarrow> good f xs (tree st) 1 0 (n st - 1)"
  using built_inv_conj [OF assms] by auto

lemma nodes_good:
  "(v, l, r) \<in> nodes m \<Longrightarrow> good f xs t 1 0 (m - 1) \<Longrightarrow> shape len 1 0 (m - 1)
    \<Longrightarrow> good f xs t v l r \<and> shape len v l r"
proof (induction rule: nodes.induct)
  case root
  then show ?case by simp
next
  case (left v l r)
  with good_node_inv [of f xs t v l r] shape_node_inv [of len v l r] show ?case by simp
next
  case (right v l r)
  with good_node_inv [of f xs t v l r] shape_node_inv [of len v l r] show ?case by simp
qed

lemma usage_tree0_built: "built (\<lambda>a b. a + b) [2, 4, 1, 42, 9] usage_tree0"
proof -
  have "segment_tree_vec 4 [2, 4, 1, 42, 9] = Some (Inr usage_tree0)"
    unfolding four_eq usage_tree0_def
    by (simp add: segment_tree_vec_def vec_assign_def max_size_def bind_def vec_get_def
      vec_set_def twice_def twice_plus1_def INT_MAX_def build.simps)
      (simp add: eval_nat_numeral)
  then show ?thesis
    by (rule from_vec)
qed

lemma usage_update: "update_point 4 usage_tree0 2 7 = Some (Inr usage_tree)"
  unfolding four_eq usage_tree_def usage_tree0_def
  by (simp add: update_point_def bind_def vec_get_def
      vec_set_def twice_def twice_plus1_def INT_MAX_def update.simps)

lemma usage_tree_built: "built (\<lambda>a b. a + b) [2, 4, 7, 42, 9] usage_tree"
proof -
  from usage_tree0_built usage_update
  have "built (\<lambda>a b. a + b) ([2, 4, 1, 42, 9][2 := 7]) usage_tree"
    by (rule updated)
  then show ?thesis by simp
qed

lemma associative_plus: "associative (\<lambda>a b. a + b :: cint)"
  by (simp add: associative_def add.assoc)

text \<open>
  C1. On a tree built from a sequence with an associative combiner and changed by
  any calls of \<open>update_point\<close>, a query with \<open>left \<le> right < n\<close> returns the fold of
  the current logical values at \<open>left..right\<close> under the combiner, in range order,
  and the tree. A call depth of \<open>d + 1\<close> is enough when \<open>n \<le> 2 ^ d\<close>.
\<close>

theorem query_is_fold:
  assumes "built f xs st" and "associative f"
    and "left \<le> right" and "right < n st" and "n st \<le> 2 ^ d"
  shows "get_public (Suc d) st left right = Some (Inr (agg f xs left right, st))"
proof -
  from assms(4) have pos: "0 < n st" by simp
  note f = built_inv(1) [OF assms(1)]
  note s = built_inv(3) [OF assms(1) pos]
  note g = built_inv(4) [OF assms(1) pos]
  have sz: "Suc (n st - 1 - 0) \<le> 2 ^ d"
    using assms(4,5) by simp
  have "left \<le> n st - 1" "0 \<le> right"
    using assms(3,4) by simp_all
  from get_val_total [OF s sz assms(3) this, of f] obtain x where
    x: "get_val (Suc d) f left right 1 0 (n st - 1) (tree st) = Some (Inr x)"
    by blast
  have "max left 0 = left" "min right (n st - 1) = right"
    using assms(4) by simp_all
  with get_val_good [OF x g assms(2,3) \<open>left \<le> n st - 1\<close> \<open>0 \<le> right\<close>]
  have "x = agg f xs left right"
    by simp
  with x f assms(3,4) have "value_of (get_public (Suc d) st left right)
      = Some (Inr (agg f xs left right))"
    by (simp add: value_of_get_public)
  then show ?thesis
    using get_public_char [of "Suc d" st left right] by simp
qed

theorem query_is_fold_witness:
  "get_public 4 usage_tree 1 3 = Some (Inr (53, usage_tree))"
proof -
  have "1 \<le> (3 :: nat)" "3 < n usage_tree" "n usage_tree \<le> 2 ^ 3"
    by (simp_all add: usage_tree_def)
  from query_is_fold [OF usage_tree_built associative_plus this]
  show ?thesis
    by (simp add: agg_def upt_rec eval_nat_numeral)
qed

text \<open>
  C2. On a tree built from a sequence and changed by any calls of \<open>update_point\<close>,
  every node \<open>v\<close> that covers \<open>[l, r]\<close> with \<open>l < r\<close> has its two children inside
  the storage and holds the combination of what they hold.
\<close>

theorem node_invariant:
  assumes "built f xs st" and "(v, l, r) \<in> nodes (n st)" and "l < r"
  shows "2 * v + 1 < length (tree st)
    \<and> tree st ! v = foo st (tree st ! (2 * v)) (tree st ! (2 * v + 1))"
proof -
  from assms(2) have pos: "0 < n st"
    by (induction rule: nodes.induct) simp_all
  note f = built_inv(1) [OF assms(1)]
  note s = built_inv(3) [OF assms(1) pos]
  note g = built_inv(4) [OF assms(1) pos]
  from nodes_good [OF assms(2) g s] have
    "good f xs (tree st) v l r" "shape (length (tree st)) v l r"
    by simp_all
  from good_node_inv [OF this(1) assms(3)] shape_node_inv [OF this(2) assms(3)] f
  show ?thesis by simp
qed


theorem node_invariant_witness:
  "2 * 1 + 1 < length (tree usage_tree)
    \<and> tree usage_tree ! 1 = foo usage_tree (tree usage_tree ! 2) (tree usage_tree ! 3)"
proof -
  have "0 < n usage_tree" by (simp add: usage_tree_def)
  then have "(1, 0, n usage_tree - 1) \<in> nodes (n usage_tree)"
    by (rule nodes.root)
  moreover have "0 < n usage_tree - 1" by (simp add: usage_tree_def)
  ultimately show ?thesis
    using node_invariant [OF usage_tree_built, of 1 0 "n usage_tree - 1"] by simp
qed

section \<open>A query after an update\<close>

lemma get_val_after_set:
  assumes "1 \<le> v" and "c = 2 * v \<or> c = 2 * v + 1"
  shows "get_val d f left right c l r (t[v := x]) = get_val d f left right c l r t"
proof (rule get_val_frame)
  show "length (t[v := x]) = length t" by simp
  show "\<forall>u \<in> slots c. t[v := x] ! u = t ! u"
  proof
    fix u assume "u \<in> slots c"
    with assms not_in_child_slots [OF assms(1)] have "u \<noteq> v" by blast
    then show "t[v := x] ! u = t ! u" by simp
  qed
qed

lemma get_val_right_kept:
  assumes "1 \<le> v" and "length t1 = length t \<and> (\<forall>u. u \<notin> slots (2 * v) \<longrightarrow> t1 ! u = t ! u)"
  shows "get_val d f left right (2 * v + 1) l r t1 = get_val d f left right (2 * v + 1) l r t"
proof (rule get_val_frame)
  show "length t1 = length t" using assms(2) by simp
  show "\<forall>u \<in> slots (2 * v + 1). t1 ! u = t ! u"
    using assms(2) slots_disjoint [OF assms(1)] by blast
qed

lemma get_val_left_kept:
  assumes "1 \<le> v"
    and "length t1 = length t \<and> (\<forall>u. u \<notin> slots (2 * v + 1) \<longrightarrow> t1 ! u = t ! u)"
  shows "get_val d f left right (2 * v) l r t1 = get_val d f left right (2 * v) l r t"
proof (rule get_val_frame)
  show "length t1 = length t" using assms(2) by simp
  show "\<forall>u \<in> slots (2 * v). t1 ! u = t ! u"
    using assms(2) slots_disjoint [OF assms(1)] by blast
qed

lemma query_updated_point:
  "update d f idx val v l r t = Some (Inr t') \<Longrightarrow> 1 \<le> v \<Longrightarrow> l \<le> idx \<Longrightarrow> idx \<le> r
    \<Longrightarrow> get_val d f idx idx v l r t' = Some (Inr val)"
proof (induction d arbitrary: v l r t t')
  case 0
  then show ?case by simp
next
  case (Suc d)
  show ?case
  proof (cases "l = r")
    case True
    with Suc.prems have "v < length t" "t' = t[v := val]" "idx \<le> l \<and> r \<le> idx"
      by (simp_all add: update_leaf)
    then show ?thesis
      by (simp add: get_val_Suc vec_get_def)
  next
    case False
    let ?m = "(l + r) div 2"
    from False Suc.prems have lr: "l < r" by simp
    then have m: "l \<le> ?m" "?m < r" by arith+
    from Suc.prems(1) obtain t1 where
      c: "(if idx \<le> ?m then update d f idx val (2 * v) l ?m t
           else update d f idx val (2 * v + 1) (?m + 1) r t) = Some (Inr t1)"
      and ov: "2 * v + 1 \<le> INT_MAX"
      and t': "t' = t1[v := f (t1 ! (2 * v)) (t1 ! (2 * v + 1))]"
      unfolding update_node [OF False] by blast
    from lr have nc: "\<not> (idx \<le> l \<and> r \<le> idx)" by simp
    show ?thesis
    proof (cases "idx \<le> ?m")
      case True
      with c have "update d f idx val (2 * v) l ?m t = Some (Inr t1)" by simp
      then have "get_val d f idx idx (2 * v) l ?m t1 = Some (Inr val)"
        using Suc.prems(2,3) True by (intro Suc.IH) simp_all
      then have "get_val d f idx idx (2 * v) l ?m t' = Some (Inr val)"
        unfolding t' using Suc.prems(2) by (simp add: get_val_after_set)
      with True show ?thesis
        by (simp add: get_val_node [OF nc ov])
    next
      case False
      with c have "update d f idx val (2 * v + 1) (?m + 1) r t = Some (Inr t1)" by simp
      then have "get_val d f idx idx (2 * v + 1) (?m + 1) r t1 = Some (Inr val)"
        using Suc.prems(4) False by (intro Suc.IH) simp_all
      then have "get_val d f idx idx (2 * v + 1) (?m + 1) r t' = Some (Inr val)"
        unfolding t' using Suc.prems(2) by (simp add: get_val_after_set)
      with False show ?thesis
        by (simp add: get_val_node [OF nc ov])
    qed
  qed
qed

lemma get_val_children:
  assumes "\<not> (left \<le> l \<and> r \<le> right)"
    and "get_val d f left right (2 * v) l ((l + r) div 2) t'
       = get_val d f left right (2 * v) l ((l + r) div 2) t"
    and "get_val d f left right (2 * v + 1) ((l + r) div 2 + 1) r t'
       = get_val d f left right (2 * v + 1) ((l + r) div 2 + 1) r t"
  shows "get_val (Suc d) f left right v l r t' = get_val (Suc d) f left right v l r t"
  using twice_cases [of v]
proof
  assume "twice v = Some (Inr (2 * v)) \<and> twice_plus1 v = Some (Inr (2 * v + 1))
      \<and> 2 * v + 1 \<le> INT_MAX"
  then have ov: "2 * v + 1 \<le> INT_MAX" by simp
  show ?thesis
    by (simp only: get_val_node [OF assms(1) ov] assms(2,3))
next
  assume "twice v = Some (Inl Signed_overflow) \<and> twice_plus1 v = Some (Inl Signed_overflow)"
  then show ?thesis
    unfolding get_val_Suc if_not_P [OF assms(1)] by simp
qed

lemma query_elsewhere:
  "update d f idx val v l r t = Some (Inr t') \<Longrightarrow> 1 \<le> v \<Longrightarrow> l \<le> idx \<Longrightarrow> idx \<le> r
    \<Longrightarrow> \<not> (left \<le> idx \<and> idx \<le> right)
    \<Longrightarrow> get_val d' f left right v l r t' = get_val d' f left right v l r t"
proof (induction d arbitrary: v l r t t' d')
  case 0
  then show ?case by simp
next
  case (Suc d)
  let ?m = "(l + r) div 2"
  from Suc.prems(3,4,5) have nc: "\<not> (left \<le> l \<and> r \<le> right)" by linarith
  show ?case
  proof (cases d')
    case 0
    then show ?thesis by (simp add: get_val_0)
  next
    case (Suc e)
    have "get_val e f left right (2 * v) l ?m t' = get_val e f left right (2 * v) l ?m t
      \<and> get_val e f left right (2 * v + 1) (?m + 1) r t'
        = get_val e f left right (2 * v + 1) (?m + 1) r t"
    proof (cases "l = r")
      case True
      with Suc.prems(1) have "t' = t[v := val]"
        by (simp add: update_leaf)
      then show ?thesis
        using Suc.prems(2) by (simp add: get_val_after_set)
    next
      case False
      with Suc.prems have lr: "l < r" by simp
      from Suc.prems(1) obtain t1 where
        c: "(if idx \<le> ?m then update d f idx val (2 * v) l ?m t
             else update d f idx val (2 * v + 1) (?m + 1) r t) = Some (Inr t1)"
        and t': "t' = t1[v := f (t1 ! (2 * v)) (t1 ! (2 * v + 1))]"
        unfolding update_node [OF False] by blast
      have "get_val e f left right (2 * v) l ?m t1 = get_val e f left right (2 * v) l ?m t
        \<and> get_val e f left right (2 * v + 1) (?m + 1) r t1
          = get_val e f left right (2 * v + 1) (?m + 1) r t"
      proof (cases "idx \<le> ?m")
        case True
        with c have u: "update d f idx val (2 * v) l ?m t = Some (Inr t1)" by simp
        then have "get_val e f left right (2 * v) l ?m t1
            = get_val e f left right (2 * v) l ?m t"
          using Suc.prems(2,3,5) True by (intro Suc.IH) simp_all
        moreover have "get_val e f left right (2 * v + 1) (?m + 1) r t1
            = get_val e f left right (2 * v + 1) (?m + 1) r t"
          using Suc.prems(2) update_frame [OF u] by (rule get_val_right_kept)
        ultimately show ?thesis by simp
      next
        case False
        with c have u: "update d f idx val (2 * v + 1) (?m + 1) r t = Some (Inr t1)" by simp
        then have "get_val e f left right (2 * v + 1) (?m + 1) r t1
            = get_val e f left right (2 * v + 1) (?m + 1) r t"
          using Suc.prems(4,5) False by (intro Suc.IH) simp_all
        moreover have "get_val e f left right (2 * v) l ?m t1
            = get_val e f left right (2 * v) l ?m t"
          using Suc.prems(2) update_frame [OF u] by (rule get_val_left_kept)
        ultimately show ?thesis by simp
      qed
      then show ?thesis
        unfolding t' using Suc.prems(2) by (simp add: get_val_after_set)
    qed
    with nc show ?thesis
      unfolding Suc by (intro get_val_children) simp_all
  qed
qed

lemma bind_Some:
  assumes "bind m k = Some res"
  obtains e where "m = Some (Inl e)" and "res = Inl e"
  | x where "m = Some (Inr x)" and "k x = Some res"
  using assms by (auto simp: bind_def split: option.splits sum.splits)

lemma get_val_deeper:
  "get_val d f left right v l r t = Some res \<Longrightarrow> d \<le> d'
    \<Longrightarrow> get_val d' f left right v l r t = Some res"
proof (induction d arbitrary: d' v l r res)
  case 0
  then show ?case by (simp add: get_val_0)
next
  case (Suc d)
  let ?m = "(l + r) div 2"
  from Suc.prems(2) obtain e where d': "d' = Suc e" and le: "d \<le> e"
    by (cases d') simp_all
  show ?case
  proof (cases "left \<le> l \<and> r \<le> right")
    case True
    with Suc.prems(1) show ?thesis
      unfolding d' by (simp add: get_val_Suc)
  next
    case False
    from twice_cases [of v] show ?thesis
    proof
      assume "twice v = Some (Inl Signed_overflow) \<and> twice_plus1 v = Some (Inl Signed_overflow)"
      then have tw: "twice v = Some (Inl Signed_overflow)"
        "twice_plus1 v = Some (Inl Signed_overflow)" by simp_all
      have "get_val (Suc k) f left right v l r t = Some (Inl Signed_overflow)" for k
        unfolding get_val_Suc if_not_P [OF False] by (simp add: tw)
      with Suc.prems(1) show ?thesis
        unfolding d' by simp
    next
      assume "twice v = Some (Inr (2 * v)) \<and> twice_plus1 v = Some (Inr (2 * v + 1))
        \<and> 2 * v + 1 \<le> INT_MAX"
      then have ov: "2 * v + 1 \<le> INT_MAX" by simp
      note step = get_val_node [OF False ov]
      consider (lo) "right \<le> ?m" | (hi) "\<not> right \<le> ?m" "left > ?m"
        | (both) "\<not> right \<le> ?m" "\<not> left > ?m"
        by blast
      then show ?thesis
      proof cases
        case lo
        with Suc.prems(1) have "get_val d f left right (2 * v) l ?m t = Some res"
          by (simp add: step)
        from Suc.IH [OF this le] lo show ?thesis
          unfolding d' by (simp add: step)
      next
        case hi
        with Suc.prems(1) have "get_val d f left right (2 * v + 1) (?m + 1) r t = Some res"
          by (simp add: step)
        from Suc.IH [OF this le] hi show ?thesis
          unfolding d' by (simp add: step)
      next
        case both
        with Suc.prems(1) have b: "bind (get_val d f left right (2 * v) l ?m t) (\<lambda>a.
            bind (get_val d f left right (2 * v + 1) (?m + 1) r t) (\<lambda>b.
            Some (Inr (f a b)))) = Some res"
          by (simp add: step)
        from b show ?thesis
        proof (cases rule: bind_Some)
          case (1 e')
          from Suc.IH [OF 1(1) le] 1(2) both show ?thesis
            unfolding d' by (simp add: step)
        next
          case (2 a)
          from 2(2) show ?thesis
          proof (cases rule: bind_Some)
            case (1 e')
            from Suc.IH [OF 2(1) le] Suc.IH [OF 1(1) le] 1(2) both show ?thesis
              unfolding d' by (simp add: step)
          next
            case inner: (2 b)
            from Suc.IH [OF 2(1) le] Suc.IH [OF inner(1) le] inner(2) both show ?thesis
              unfolding d' by (simp add: step)
          qed
        qed
      qed
    qed
  qed
qed

text \<open>
  C3. When \<open>update_point(index, v)\<close> with \<open>index < n\<close> has returned, \<open>query(index, index)\<close>
  returns exactly \<open>v\<close> and the tree unchanged, at every call depth that is not below
  that of the update, and every query whose range does not contain \<open>index\<close> has
  the outcome it had before the update, at every call depth. This holds for every
  tree, however it was made.
\<close>

theorem update_then_query:
  fixes st :: "('a::zero) segment_tree"
  assumes "update_point d st index val = Some (Inr st')" and "index < n st"
  shows "(\<forall>d'. d \<le> d' \<longrightarrow> get_public d' st' index index = Some (Inr (val, st')))
    \<and> (\<forall>left right d'. \<not> (left \<le> index \<and> index \<le> right) \<longrightarrow>
          value_of (get_public d' st' left right) = value_of (get_public d' st left right))"
proof
  note st' = update_point_Inr [OF assms(1)]
  note u = st'(3) [OF assms(2)]
  from assms(2) have r: "index \<le> n st - 1" by simp
  have here: "get_val d (foo st) index index 1 0 (n st - 1) (tree st') = Some (Inr val)"
    using u _ _ r by (rule query_updated_point) simp_all
  show "\<forall>d'. d \<le> d' \<longrightarrow> get_public d' st' index index = Some (Inr (val, st'))"
  proof (intro allI impI)
    fix d' assume "d \<le> d'"
    with here have "get_val d' (foo st) index index 1 0 (n st - 1) (tree st') = Some (Inr val)"
      by (rule get_val_deeper)
    with assms(2) st'(1,2) have "value_of (get_public d' st' index index) = Some (Inr val)"
      by (simp add: value_of_get_public)
    then show "get_public d' st' index index = Some (Inr (val, st'))"
      using get_public_char [of d' st' index index] by simp
  qed
  show "\<forall>left right d'. \<not> (left \<le> index \<and> index \<le> right) \<longrightarrow>
          value_of (get_public d' st' left right) = value_of (get_public d' st left right)"
  proof (intro allI impI)
    fix left right d'
    assume out: "\<not> (left \<le> index \<and> index \<le> right)"
    have "get_val d' (foo st) left right 1 0 (n st - 1) (tree st')
        = get_val d' (foo st) left right 1 0 (n st - 1) (tree st)"
      using u _ _ r out by (rule query_elsewhere) simp_all
    with st'(1,2) show "value_of (get_public d' st' left right)
        = value_of (get_public d' st left right)"
      by (simp add: value_of_get_public)
  qed
qed

theorem update_then_query_witness:
  "get_public 4 usage_tree 2 2 = Some (Inr (7, usage_tree))
    \<and> value_of (get_public 4 usage_tree 3 4) = value_of (get_public 4 usage_tree0 3 4)"
proof -
  have "(2 :: nat) < n usage_tree0" by (simp add: usage_tree0_def)
  from update_then_query [OF usage_update this] show ?thesis
    by simp
qed

section \<open>The recursions come to an end\<close>

lemma pow2_cover: "1 \<le> m \<Longrightarrow> \<exists>h. m \<le> 2 ^ h \<and> 2 ^ h < 2 * (m::nat)"
proof (induction m rule: less_induct)
  case (less m)
  show ?case
  proof (cases "m = 1")
    case True
    then have "m \<le> 2 ^ 0 \<and> 2 ^ 0 < 2 * m" by simp
    then show ?thesis by blast
  next
    case False
    let ?k = "(m + 1) div 2"
    from False less.prems have "?k < m" "1 \<le> ?k" by arith+
    from less.IH [OF this] obtain h where h: "?k \<le> 2 ^ h" "2 ^ h < 2 * ?k"
      by blast
    have "m \<le> 2 * ?k" by arith
    with h(1) have a: "m \<le> 2 ^ Suc h" by simp
    show ?thesis
    proof (cases "2 ^ h < m")
      case True
      then have "2 ^ Suc h < 2 * m" by simp
      with a show ?thesis by blast
    next
      case False
      then have "m \<le> 2 ^ h" by simp
      moreover from h(2) have "2 ^ h < 2 * m" by arith
      ultimately show ?thesis by blast
    qed
  qed
qed

lemma bind_returns:
  "m \<noteq> None \<Longrightarrow> (\<And>x. m = Some (Inr x) \<Longrightarrow> k x \<noteq> None) \<Longrightarrow> bind m k \<noteq> None"
  by (auto simp: bind_def split: option.splits sum.splits)

lemma build_returns:
  "l \<le> r \<Longrightarrow> Suc (r - l) \<le> 2 ^ d \<Longrightarrow> build (Suc d) f vec v l r t \<noteq> None"
proof (induction d arbitrary: v l r t)
  case 0
  then have "l = r" by simp
  then show ?case
    by (simp add: build.simps bind_def vec_get_def vec_set_def)
next
  case (Suc d)
  show ?case
  proof (cases "l = r")
    case True
    then show ?thesis
      by (simp add: build.simps bind_def vec_get_def vec_set_def)
  next
    case False
    let ?m = "(l + r) div 2"
    from False Suc.prems have lr: "l < r" by simp
    then have m: "l \<le> ?m" "?m + 1 \<le> r" by arith+
    have sz: "Suc (?m - l) \<le> 2 ^ d" "Suc (r - (?m + 1)) \<le> 2 ^ d"
      using half_sizes [OF lr, of "2 ^ d"] Suc.prems(2) by simp_all
    have "bind (twice v) (\<lambda>lc.
       bind (build (Suc d) f vec lc l ?m t) (\<lambda>t1.
       bind (twice_plus1 v) (\<lambda>rc.
       bind (build (Suc d) f vec rc (?m + 1) r t1) (\<lambda>t2.
       bind (vec_get t2 lc) (\<lambda>a.
       bind (vec_get t2 rc) (\<lambda>b.
       vec_set t2 v (f a b))))))) \<noteq> None"
      by (intro bind_returns Suc.IH m sz) (simp_all add: twice_def twice_plus1_def
          vec_get_def vec_set_def)
    with False show ?thesis
      by (simp add: build.simps(2) [of "Suc d"] Let_def)
  qed
qed

lemma segment_tree_n_foo_Inr:
  assumes "segment_tree_n_foo n0 f = Some (Inr st)"
  shows "4 * n st \<le> INT_MAX \<and> tree st = replicate (4 * n st) 0 \<and> foo st = f"
proof -
  let ?k = "sint n0"
  from assms have rng: "\<not> (4 * ?k < INT_MIN \<or> int INT_MAX < 4 * ?k)"
    by (auto simp: segment_tree_n_foo_def Let_def split: if_splits)
  have nonneg: "0 \<le> ?k"
  proof (rule ccontr)
    assume "\<not> 0 \<le> ?k"
    with rng have "- 2147483648 \<le> 4 * ?k" "4 * ?k < 0"
      by (simp_all add: INT_MIN_def)
    then have "(4 * ?k) mod 2 ^ 64 = 4 * ?k + 2 ^ 64"
      by (intro mod_pos_pos_trivial [THEN trans [OF mod_add_self2 [symmetric]]]) simp_all
    with \<open>- 2147483648 \<le> 4 * ?k\<close> have "max_size < nat ((4 * ?k) mod 2 ^ 64)"
      by (simp add: max_size_def)
    with rng assms show False
      by (simp add: segment_tree_n_foo_def Let_def vec_assign_def)
  qed
  with rng have small: "?k mod 2 ^ 64 = ?k" "(4 * ?k) mod 2 ^ 64 = 4 * ?k"
    by (simp_all add: INT_MAX_def)
  from rng nonneg have "nat (4 * ?k) \<le> max_size" "4 * nat ?k \<le> INT_MAX"
    unfolding INT_MAX_def max_size_def by simp_all arith+
  with assms rng small nonneg show ?thesis
    by (auto simp: segment_tree_n_foo_def Let_def vec_assign_def nat_mult_distrib)
qed

lemma segment_tree_n_Inr:
  assumes "segment_tree_n n0 = Some (Inr st)"
  shows "4 * n st \<le> INT_MAX \<and> tree st = replicate (4 * n st) 0 \<and> foo st = (\<lambda>a b. a + b)"
proof -
  from assms have "segment_tree_n_foo n0 (\<lambda>a b. a + b) = Some (Inr st)"
    by (simp add: segment_tree_n_def segment_tree_n_foo_def)
  then show ?thesis
    by (rule segment_tree_n_foo_Inr)
qed

lemma root_shape:
  assumes "0 < m" and "m \<le> 2 ^ 30" and "4 * m \<le> len"
  shows "shape len 1 0 (m - 1)"
proof -
  from assms(1) pow2_cover [of m] obtain h where h: "m \<le> 2 ^ h" "2 ^ h < 2 * m"
    by auto
  from h(2) assms(2) have "(2::nat) ^ h < 2 ^ 31" by simp
  then have "h < 31" using power_strict_increasing_iff [of "2::nat" h 31] by simp
  then have "h \<le> 30" by simp
  then have "(2::nat) ^ h \<le> 2 ^ 30" by (rule power_increasing) simp
  then have "(1 + 1) * 2 ^ h \<le> (2::nat) ^ 31" by simp
  moreover have "(1 + 1) * 2 ^ h \<le> len" using h(2) assms(3) by simp
  moreover have "Suc (m - 1 - 0) \<le> 2 ^ h" using h(1) assms(1) by simp
  ultimately show ?thesis
    by (intro shape_sufficient [of 1 0 "m - 1" h]) simp_all
qed

lemma zeros_shape:
  assumes "4 * m \<le> INT_MAX" and "0 < m"
  shows "shape (4 * m) 1 0 (m - 1)"
  using assms by (intro root_shape) (simp_all add: INT_MAX_def)

text \<open>
  A limit of the \<^verbatim>\<open>int\<close> node index. On the leftmost path the index doubles at every
  level, so a subtree over more than \<open>2 ^ h\<close> elements below slot \<open>v\<close> needs
  \<open>v * 2 ^ h < 2 ^ 30\<close>. A constructor from a sequence of more than \<open>2 ^ 30\<close> elements
  therefore returns no tree.
\<close>

lemma shape_depth:
  "shape len v l r \<Longrightarrow> 2 ^ h \<le> r - l \<Longrightarrow> v * 2 ^ h < 2 ^ 30"
proof (induction arbitrary: h rule: shape.induct)
  case (shape_leaf v l)
  then show ?case by simp
next
  case (shape_node v l r)
  show ?case
  proof (cases h)
    case 0
    with shape_node.hyps(3) show ?thesis by (simp add: INT_MAX_def)
  next
    case (Suc k)
    with shape_node.prems have "2 * 2 ^ k \<le> r - l" by simp
    then have "2 ^ k \<le> (l + r) div 2 - l" by arith
    from shape_node.IH(1) [OF this] Suc show ?thesis by (simp add: mult.assoc)
  qed
qed

lemma segment_tree_vec_foo_limit:
  assumes "segment_tree_vec_foo d vec f = Some (Inr st)"
  shows "length vec \<le> 2 ^ 30"
proof (rule ccontr)
  assume big: "\<not> length vec \<le> 2 ^ 30"
  then have "vec \<noteq> []" by auto
  with segment_tree_vec_foo_Inr [OF assms] obtain t where
    "build d f vec 1 0 (length vec - 1) t = Some (Inr (tree st))"
    by blast
  from build_sound [OF this] have "shape (length t) 1 0 (length vec - 1)"
    by simp
  moreover from big have "2 ^ 30 \<le> length vec - 1 - 0" by simp
  ultimately have "1 * 2 ^ 30 < (2::nat) ^ 30" by (rule shape_depth)
  then show False by simp
qed

lemma segment_tree_vec_foo_total:
  assumes "length vec \<le> 2 ^ 30" and "length vec \<le> 2 ^ d"
  shows "\<exists>st. segment_tree_vec_foo (Suc d) vec f = Some (Inr st)"
proof (cases "vec = []")
  case True
  then show ?thesis
    by (simp add: segment_tree_vec_foo_def vec_assign_def max_size_def)
next
  case False
  let ?m = "length vec"
  let ?t = "replicate (4 * ?m) (0 :: cint)"
  from assms(1) have small: "(4 * ?m) mod 2 ^ 64 = 4 * ?m" "4 * ?m \<le> max_size"
    by (simp_all add: max_size_def)
  from False have pos: "0 < ?m" by simp
  from pos assms(1) have "shape (length ?t) 1 0 (?m - 1)"
    by (rule root_shape) simp
  moreover have "?m - 1 < ?m" using pos by simp
  moreover have "Suc (?m - 1 - 0) \<le> 2 ^ d" using pos assms(2) by simp
  ultimately obtain t' where "build (Suc d) f vec 1 0 (?m - 1) ?t = Some (Inr t')"
    using build_total [of ?t 1 0 "?m - 1" vec d f] by blast
  with False small show ?thesis
    by (simp add: segment_tree_vec_foo_def vec_assign_def Let_def)
qed

lemma segment_tree_vec_foo_returns:
  assumes "length vec \<le> 2 ^ d"
  shows "segment_tree_vec_foo (Suc d) vec f \<noteq> None"
proof (cases "vec = []")
  case True
  then show ?thesis
    by (simp add: segment_tree_vec_foo_def vec_assign_def bind_def)
next
  case False
  then have "Suc (length vec - 1 - 0) \<le> 2 ^ d" using assms by simp
  then have b: "\<And>t. build (Suc d) f vec 1 0 (length vec - 1) t \<noteq> None"
    by (intro build_returns) simp_all
  have "\<And>t. bind (build (Suc d) f vec 1 0 (length vec - 1) t)
      (\<lambda>t'. Some (Inr \<lparr>n = length vec, tree = t', foo = f\<rparr>)) \<noteq> None"
    by (rule bind_returns [OF b]) simp
  with False show ?thesis
    by (simp add: segment_tree_vec_foo_def Let_def vec_assign_def)
qed

lemma segment_tree_vec_eq:
  "segment_tree_vec d vec = segment_tree_vec_foo d vec (\<lambda>a b. a + b)"
  by (simp add: segment_tree_vec_def segment_tree_vec_foo_def)

lemma reachable_shape:
  "reachable st \<Longrightarrow> 0 < n st \<Longrightarrow> shape (length (tree st)) 1 0 (n st - 1)"
proof (induction rule: reachable.induct)
  case (by_n_foo n0 f st)
  from segment_tree_n_foo_Inr [OF by_n_foo.hyps] by_n_foo.prems zeros_shape [of "n st"]
  show ?case by simp
next
  case (by_n n0 st)
  from segment_tree_n_Inr [OF by_n.hyps] by_n.prems zeros_shape [of "n st"]
  show ?case by simp
next
  case (by_vec_foo d vec f st)
  from segment_tree_vec_foo_Inr [OF by_vec_foo.hyps] by_vec_foo.prems obtain t where
    "n st = length vec" "build d f vec 1 0 (length vec - 1) t = Some (Inr (tree st))"
    by auto
  with build_sound [OF this(2)] show ?case by simp
next
  case (by_vec d vec st)
  from segment_tree_vec_Inr [OF by_vec.hyps] by_vec.prems obtain t where
    "n st = length vec"
    "build d (\<lambda>a b. a + b) vec 1 0 (length vec - 1) t = Some (Inr (tree st))"
    by auto
  with build_sound [OF this(2)] show ?case by simp
next
  case (by_update_point st d point new_val st')
  note st' = update_point_Inr [OF by_update_point.hyps(2)]
  show ?case
  proof (cases "point < n st")
    case True
    from update_frame [OF st'(3) [OF True]] by_update_point.IH by_update_point.prems st'(1)
    show ?thesis by simp
  next
    case False
    with st'(4) by_update_point.IH by_update_point.prems show ?thesis by simp
  qed
next
  case (by_get st d left right x st')
  from by_get.hyps(2) get_public_char [of d st left right] have "st' = st"
    by (simp add: value_of_def)
  with by_get.IH by_get.prems show ?case by simp
qed


lemma usage_tree_reachable: "reachable usage_tree"
proof -
  have "segment_tree_vec 4 [2, 4, 1, 42, 9] = Some (Inr usage_tree0)"
    unfolding four_eq usage_tree0_def
    by (simp add: segment_tree_vec_def vec_assign_def max_size_def bind_def vec_get_def
      vec_set_def twice_def twice_plus1_def INT_MAX_def build.simps)
      (simp add: eval_nat_numeral)
  then have "reachable usage_tree0" by (rule by_vec)
  then show ?thesis using usage_update by (rule by_update_point)
qed

text \<open>
  C9. The three recursions come to an end, at a depth that is logarithmic in \<open>n\<close>:
  with \<open>n \<le> 2 ^ d\<close>, a call depth of \<open>d + 1\<close> is enough. Both constructors from a
  sequence return on every sequence, and return a tree when the sequence has at
  most \<open>2 ^ 30\<close> elements; on every tree that the public interface can produce,
  \<open>update_point\<close> returns a tree and \<open>query\<close> returns a value and the tree unchanged.
\<close>

theorem recursion_completes:
  "(length vec \<le> 2 ^ d \<longrightarrow>
      segment_tree_vec_foo (Suc d) vec f \<noteq> None \<and> segment_tree_vec (Suc d) vec \<noteq> None)
   \<and> (length vec \<le> 2 ^ d \<and> length vec \<le> 2 ^ 30 \<longrightarrow>
      (\<exists>st. segment_tree_vec_foo (Suc d) vec f = Some (Inr st))
      \<and> (\<exists>st. segment_tree_vec (Suc d) vec = Some (Inr st)))
   \<and> (reachable st \<and> n st \<le> 2 ^ d \<longrightarrow>
      (\<exists>st'. update_point (Suc d) st point new_val = Some (Inr st'))
      \<and> (\<exists>x. get_public (Suc d) st left right = Some (Inr (x, st))))"
proof (intro conjI impI)
  assume "length vec \<le> 2 ^ d"
  then show "segment_tree_vec_foo (Suc d) vec f \<noteq> None"
    and "segment_tree_vec (Suc d) vec \<noteq> None"
    unfolding segment_tree_vec_eq by (rule segment_tree_vec_foo_returns)+
next
  assume "length vec \<le> 2 ^ d \<and> length vec \<le> 2 ^ 30"
  then show "\<exists>st. segment_tree_vec_foo (Suc d) vec f = Some (Inr st)"
    and "\<exists>st. segment_tree_vec (Suc d) vec = Some (Inr st)"
    unfolding segment_tree_vec_eq by (simp_all add: segment_tree_vec_foo_total)
next
  assume "reachable st \<and> n st \<le> 2 ^ d"
  then have a: "reachable st" "n st \<le> 2 ^ d" by simp_all
  show "\<exists>st'. update_point (Suc d) st point new_val = Some (Inr st')"
  proof (cases "point < n st")
    case True
    then have pos: "0 < n st" by simp
    with a reachable_shape [OF a(1) pos]
    have "shape (length (tree st)) 1 0 (n st - 1)" "Suc (n st - 1 - 0) \<le> 2 ^ d"
      by simp_all
    from update_total [OF this, of "foo st" point new_val] True show ?thesis
      by (auto simp: update_point_def)
  next
    case False
    then show ?thesis by (simp add: update_point_def)
  qed
  show "\<exists>x. get_public (Suc d) st left right = Some (Inr (x, st))"
  proof (cases "left \<le> right \<and> right < n st")
    case True
    then have pos: "0 < n st" by simp
    with a True reachable_shape [OF a(1) pos]
    have "shape (length (tree st)) 1 0 (n st - 1)" "Suc (n st - 1 - 0) \<le> 2 ^ d"
      "left \<le> right" "left \<le> n st - 1" "0 \<le> right"
      by auto
    from get_val_total [OF this, of "foo st"] True
    have "\<exists>x. value_of (get_public (Suc d) st left right) = Some (Inr x)"
      by (simp add: value_of_get_public)
    then show ?thesis
      using get_public_char [of "Suc d" st left right] by auto
  next
    case False
    then show ?thesis by (auto simp: get_public_def)
  qed
qed

theorem recursion_completes_witness:
  "segment_tree_vec 4 [2, 4, 1, 42, 9] \<noteq> None
   \<and> (\<exists>st. segment_tree_vec 4 [2, 4, 1, 42, 9] = Some (Inr st))
   \<and> (\<exists>st'. update_point 4 usage_tree 1 5 = Some (Inr st'))
   \<and> (\<exists>x. get_public 4 usage_tree 1 3 = Some (Inr (x, usage_tree)))"
proof -
  have "n usage_tree \<le> 2 ^ 3"
    by (simp add: usage_tree_def)
  then have "length [2, 4, 1, 42, 9 :: cint] \<le> 2 ^ 3"
    "length [2, 4, 1, 42, 9 :: cint] \<le> 2 ^ 3 \<and> length [2, 4, 1, 42, 9 :: cint] \<le> 2 ^ 30"
    "reachable usage_tree \<and> n usage_tree \<le> 2 ^ 3"
    by (simp_all add: usage_tree_reachable)
  note h = this
  have four: "Suc 3 = 4" by simp
  from recursion_completes [of "[2, 4, 1, 42, 9]" 3 "\<lambda>a b. a + b" usage_tree 1 5 1 3]
  show ?thesis
    unfolding four using h by blast
qed

section \<open>The two files\<close>

lemma build_p000_eq: "build_p000 d f vec v l r t = build d f vec v l r t"
  by (induction d arbitrary: v l r t) (simp_all add: build.simps Let_def)

lemma update_p000_eq: "update_p000 d f idx val v l r t = update d f idx val v l r t"
  by (induction d arbitrary: v l r t) (simp_all add: update.simps Let_def)

lemma get_p000_eq: "get_p000 d f left right v l r t = get d f left right v l r t"
  by (induction d arbitrary: v l r t) (simp_all add: get.simps Let_def)

lemma update_point_p000_eq: "update_point_p000 d st point new_val = update_point d st point new_val"
  by (simp add: update_point_p000_def update_point_def update_p000_eq)

lemma get_public_p000_eq: "get_public_p000 d st left right = get_public d st left right"
  by (simp add: get_public_p000_def get_public_def get_p000_eq)

lemma run_p000_eq: "run_p000 d st cs = run d st cs"
proof (induction cs arbitrary: st)
  case Nil
  show ?case by simp
next
  case (Cons c cs)
  then show ?case
    by (cases c) (simp_all add: update_point_p000_eq get_public_p000_eq)
qed

text \<open>
  C10. For the element type \<^verbatim>\<open>int\<close>, a client gets the same outcome from the classes of
  the two files: whichever of the four shared constructors makes the tree, and
  whatever calls of \<open>update_point\<close> and \<open>query\<close> follow, the values that the queries
  return are the same, and so is every failure.
\<close>

theorem files_agree:
  fixes f :: "cint \<Rightarrow> cint \<Rightarrow> cint" and cs :: "cint call list"
  shows "bind (segment_tree_n_foo_p000 n0 f) (\<lambda>st. run_p000 d st cs)
      = bind (segment_tree_n_foo n0 f) (\<lambda>st. run d st cs)
    \<and> bind (segment_tree_n_p000 n0) (\<lambda>st. run_p000 d st cs)
      = bind (segment_tree_n n0) (\<lambda>st. run d st cs)
    \<and> bind (segment_tree_vec_foo_p000 d0 vec f) (\<lambda>st. run_p000 d st cs)
      = bind (segment_tree_vec_foo d0 vec f) (\<lambda>st. run d st cs)
    \<and> bind (segment_tree_vec_p000 d0 vec) (\<lambda>st. run_p000 d st cs)
      = bind (segment_tree_vec d0 vec) (\<lambda>st. run d st cs)"
proof -
  have "segment_tree_n_foo_p000 n0 f = segment_tree_n_foo n0 f"
    by (simp add: segment_tree_n_foo_p000_def segment_tree_n_foo_def)
  moreover have "(segment_tree_n_p000 n0 :: cint segment_tree outcome) = segment_tree_n n0"
    by (simp add: segment_tree_n_p000_def segment_tree_n_def)
  moreover have "segment_tree_vec_foo_p000 d0 vec f = segment_tree_vec_foo d0 vec f"
    by (simp add: segment_tree_vec_foo_p000_def segment_tree_vec_foo_def build_p000_eq Let_def cong: if_cong)
  moreover have "segment_tree_vec_p000 d0 vec = segment_tree_vec d0 vec"
    by (simp add: segment_tree_vec_p000_def segment_tree_vec_def build_p000_eq Let_def cong: if_cong)
  ultimately show ?thesis
    by (simp add: run_p000_eq)
qed

section \<open>The concrete scenario\<close>

lemma four_more: "d + 4 = Suc (Suc (Suc (Suc d)))"
  by simp

text \<open>
  C7. The tree built from \<open>[2, 4, 1, 42, 9]\<close> with the default sum: \<open>query(1, 3)\<close> is
  47; after \<open>update_point(2, 7)\<close>, \<open>query(1, 3)\<close> is 53 and \<open>query(2, 3)\<close> is 49, not
  the 43 of the comment in \<^verbatim>\<open>main\<close>. This holds at every call depth of 4 or more.
\<close>

theorem usage_sum_values:
  "bind (segment_tree_vec (d + 4) [2, 4, 1, 42, 9])
     (\<lambda>st. run (d + 4) st [Get 1 3, Update_point 2 7, Get 1 3, Get 2 3])
   = Some (Inr [47, 53, 49]) \<and> (49 :: cint) \<noteq> 43"
  unfolding four_more
  by (simp add: segment_tree_vec_def vec_assign_def max_size_def bind_def vec_get_def
      vec_set_def twice_def twice_plus1_def INT_MAX_def update_point_def get_public_def
      build.simps update.simps get.simps)

end
